theory Spec2Isabelle
  imports Main
begin

section \<open>JavaScript values and completions\<close>

text \<open>
  The values the observer and the watcher compare. Objects (plain objects, arrays,
  VNodes, component instances) are references into the heap; \<open>NaN\<close> is kept apart from
  the other numbers because \<open>===\<close> treats it specially. The other numbers are the
  integers, which is what an index or the length of an array can be.
\<close>

datatype jsval =
    Undefined
  | Null
  | Boolean bool
  | Number int
  | NaN
  | String string
  | Object nat

text \<open>\<open>a === b\<close>: \<open>NaN\<close> is equal to nothing, objects are equal by reference.\<close>

definition strict_eq :: "jsval \<Rightarrow> jsval \<Rightarrow> bool" where
  "strict_eq a b = (a \<noteq> NaN \<and> b \<noteq> NaN \<and> a = b)"

text \<open>
  Modelled from the spec: \<open>isObject\<close> of \<open>../util/index\<close> is not among the sources; the
  spec calls it "the value is a container type", the values compared by identity.
\<close>

definition isObject :: "jsval \<Rightarrow> bool" where
  "isObject v = (case v of Object r \<Rightarrow> True | _ \<Rightarrow> False)"

text \<open>
  Modelled from the spec: \<open>isUndef\<close> and \<open>isPrimitive\<close> of \<open>../util/index\<close> are not among
  the sources; the spec speaks of "primitive/sentinel targets": \<open>undefined\<close> and \<open>null\<close>,
  and the strings, numbers and booleans.
\<close>

definition isUndef :: "jsval \<Rightarrow> bool" where
  "isUndef v = (v = Undefined \<or> v = Null)"

definition isPrimitive :: "jsval \<Rightarrow> bool" where
  "isPrimitive v = (case v of String x \<Rightarrow> True | Number n \<Rightarrow> True | NaN \<Rightarrow> True
                      | Boolean b \<Rightarrow> True | _ \<Rightarrow> False)"

datatype exn = TypeError | RangeError | Thrown string

text \<open>How a call ends: it returns a value or throws. The state a call leaves behind
  is returned beside the completion in both cases, as the mutations made before a
  throw stay made.\<close>

datatype 'a completion = Return 'a | Throw exn

section \<open>Objects\<close>

text \<open>
  A property key is a name or an array index; a name that stands for an index is
  that index. An object of the heap has a class (what
  \<open>Array.isArray\<close>, \<open>isPlainObject\<close> and \<open>instanceof VNode\<close> see), its own properties in
  insertion order, its elements when it is an array, the names it inherits from
  its prototype chain, and the flag of \<open>Object.isExtensible\<close>.

  An own property is a data property (value, writable, configurable), an accessor
  property set by the user (whether it has a getter, whether it has a setter, the
  value the pair keeps: the getter returns it and the setter stores it,
  configurable), or the accessor property installed by \<open>defineReactive\<close>. The latter
  is the closure of that call: its \<open>dep\<close>, \<open>val\<close>, \<open>childOb\<close> (the Observer, when
  truthy), the accessor property it replaced when that had a getter or a setter,
  whether a \<open>customSetter\<close> was given, \<open>shallow\<close>, and configurable, which
  \<open>Object.defineProperty\<close> sets and \<open>Object.seal\<close> or \<open>Object.freeze\<close> clear. The
  properties of \<open>props\<close> are enumerable.

  An Observer is not one of the values of \<open>jsval\<close>, so the own data property
  \<open>__ob__\<close> that holds an Observer is kept apart: \<open>ob\<close> is the Observer, \<open>ob_writable\<close>
  and \<open>ob_configurable\<close> are the attributes of that property, which is not
  enumerable. An own \<open>__ob__\<close> that holds another value is a property of \<open>props\<close>
  like the others, and so is \<open>_isVue\<close>. An array owns its elements and \<open>length\<close>
  besides: the elements are writable, configurable data properties (a hole is an
  element that is \<open>undefined\<close>), and \<open>length\<close> is writable and not configurable.

  What the model leaves out. The values of inherited properties: a key the object
  does not own reads as \<open>undefined\<close>, and an assignment to it adds an own data
  property, also under \<open>__proto__\<close>. Code of the user: the getter and the setter of
  a user's accessor only return and store a value, and no value is a function. The
  getters under the names \<open>__ob__\<close> and \<open>_isVue\<close>: where such a property is an
  accessor, the value it would return is read without running it, and so are the
  properties of a value found under \<open>__ob__\<close> that is not an Observer. The property
  descriptor of an \<open>__ob__\<close> that holds an Observer: \<open>defineReactive\<close> and \<open>obj[key]\<close>
  are not applied to that key of such an object. That an \<open>__ob__\<close> which an
  assignment has overwritten stays not enumerable: the properties of an object are
  enumerated by the constructor of \<open>Observer\<close> only, after \<open>def\<close>. Frozen and sealed
  arrays.
\<close>

datatype key = Name string | Index nat

datatype klass = PlainObject | ArrayObject | VNodeObject | OtherObject

datatype descriptor =
    Data jsval bool bool
  | Accessor bool bool jsval bool
  | Reactive nat jsval "nat option" "descriptor option" bool bool bool

record jsobj =
  klass :: klass
  props :: "(key \<times> descriptor) list"
  items :: "jsval list"
  inherited :: "key list"
  extensible :: bool
  ob :: "nat option"
  ob_writable :: bool
  ob_configurable :: bool

record observer =
  ob_value :: nat
  ob_dep :: nat
  vmCount :: nat

section \<open>The state\<close>

text \<open>
  A Dep is identified by its \<open>id\<close> (\<open>uid++\<close> in the constructor), a Watcher by its \<open>id\<close>
  (\<open>++uid\<close>): both are unique per instance, so a reference to a Dep or to a Watcher is
  its id. \<open>Dep.target\<close> starts as \<open>null\<close> and becomes \<open>undefined\<close> when the stack is
  popped empty.
\<close>

datatype target = TNull | TUndefined | TWatcher nat

record watcher =
  vm :: nat
  deep :: bool
  user :: bool
  lazy :: bool
  sync :: bool
  dirty :: bool
  active :: bool
  deps :: "nat list"
  newDeps :: "nat list"
  depIds :: "nat set"
  newDepIds :: "nat set"
  cached :: jsval

record component =
  render_watcher :: "nat option"
  vm_watchers :: "nat list"
  isBeingDestroyed :: bool

datatype report = Warned string | Handled exn nat string

text \<open>\<open>notified\<close> lists the Deps whose \<open>notify()\<close> was entered and \<open>cb_calls\<close> the
  callback calls made, in order; nothing reads them.\<close>

record state =
  dep_uid :: nat
  subs :: "nat \<Rightarrow> nat list"
  dep_target :: target
  targetStack :: "target list"
  watcher_uid :: nat
  watchers :: "nat \<Rightarrow> watcher"
  vms :: "nat \<Rightarrow> component"
  queue :: "nat list"
  reports :: "report list"
  cb_calls :: "(nat \<times> jsval \<times> jsval) list"
  notified :: "nat list"
  shouldObserve :: bool
  heap :: "nat \<Rightarrow> jsobj"
  observers :: "nat \<Rightarrow> observer"
  observer_uid :: nat

text \<open>
  What a call runs under. The build and the global configuration:
  \<open>process.env.NODE_ENV === 'production'\<close>, \<open>config.async\<close>, \<open>isServerRendering()\<close>. And
  the language's conversion of a string or of an object to the length of an array
  (\<open>ToNumber\<close>, then \<open>ToUint32\<close>), which is not computed here: \<open>toLength\<close> gives the
  length, or throws what the assignment to \<open>length\<close> throws.
\<close>

record env =
  production :: bool
  async :: bool
  serverRendering :: bool
  toLength :: "jsval \<Rightarrow> state \<Rightarrow> nat completion"

section \<open>Helpers that are not among the sources\<close>

text \<open>
  Modelled from the spec: \<open>remove\<close> of \<open>../util/index\<close> is not among the sources. The
  spec describes \<open>removeSubscriber\<close> as the removal of a subscriber from a collection
  that holds no duplicates; on an array that is the deletion of the item's
  occurrence, and nothing when the item is absent.
\<close>

definition remove :: "'a list \<Rightarrow> 'a \<Rightarrow> 'a list" where
  "remove arr item = remove1 item arr"

text \<open>
  Modelled from the spec: \<open>handleError\<close> and \<open>warn\<close> of \<open>../util/index\<close> are not among
  the sources. The spec has them forward the error to a diagnostic sink and go on;
  the sink is the list \<open>reports\<close>.
\<close>

definition handleError :: "exn \<Rightarrow> nat \<Rightarrow> string \<Rightarrow> state \<Rightarrow> state" where
  "handleError e v info s = s\<lparr>reports := reports s @ [Handled e v info]\<rparr>"

definition warn :: "string \<Rightarrow> state \<Rightarrow> state" where
  "warn msg s = s\<lparr>reports := reports s @ [Warned msg]\<rparr>"

text \<open>
  Modelled from the spec: \<open>queueWatcher\<close> of \<open>./scheduler\<close> is not among the sources.
  The spec: "adds to the pending queue if its id is not already present in the
  current pending set". The flush is not modelled.
\<close>

definition queueWatcher :: "nat \<Rightarrow> state \<Rightarrow> state" where
  "queueWatcher w s = (if w \<in> set (queue s) then s else s\<lparr>queue := queue s @ [w]\<rparr>)"

section \<open>Dep\<close>

definition addSub :: "nat \<Rightarrow> nat \<Rightarrow> state \<Rightarrow> state" where
  "addSub d sub s = s\<lparr>subs := (subs s)(d := subs s d @ [sub])\<rparr>"

definition removeSub :: "nat \<Rightarrow> nat \<Rightarrow> state \<Rightarrow> state" where
  "removeSub d sub s = s\<lparr>subs := (subs s)(d := remove (subs s d) sub)\<rparr>"

definition pushTarget :: "target \<Rightarrow> state \<Rightarrow> state" where
  "pushTarget t s = s\<lparr>targetStack := targetStack s @ [t], dep_target := t\<rparr>"

text \<open>\<open>targetStack[targetStack.length - 1]\<close>: \<open>undefined\<close> on the empty stack.\<close>

definition stack_top :: "target list \<Rightarrow> target" where
  "stack_top st = (if st = [] then TUndefined else last st)"

definition popTarget :: "state \<Rightarrow> state" where
  "popTarget s =
     (let st = butlast (targetStack s)
      in s\<lparr>targetStack := st, dep_target := stack_top st\<rparr>)"

section \<open>Watcher: collecting dependencies\<close>

definition upd_watcher :: "nat \<Rightarrow> (watcher \<Rightarrow> watcher) \<Rightarrow> state \<Rightarrow> state" where
  "upd_watcher w f s = s\<lparr>watchers := (watchers s)(w := f (watchers s w))\<rparr>"

definition addDep :: "nat \<Rightarrow> nat \<Rightarrow> state \<Rightarrow> state" where
  "addDep w d s =
     (if d \<notin> newDepIds (watchers s w) then
        (let s1 = upd_watcher w (\<lambda>x. x\<lparr>newDepIds := insert d (newDepIds x)\<rparr>) s;
             s2 = upd_watcher w (\<lambda>x. x\<lparr>newDeps := newDeps x @ [d]\<rparr>) s1
         in if d \<notin> depIds (watchers s2 w) then addSub d w s2 else s2)
      else s)"

text \<open>\<open>Dep.depend\<close>: only a watcher is a truthy \<open>Dep.target\<close>.\<close>

definition depend :: "nat \<Rightarrow> state \<Rightarrow> state" where
  "depend d s = (case dep_target s of TWatcher w \<Rightarrow> addDep w d s | _ \<Rightarrow> s)"

text \<open>The loop \<open>while (i--)\<close> of \<open>cleanupDeps\<close> walks \<open>deps\<close> from its last element to
  its first; \<open>newDepIds\<close> is not written by it.\<close>

fun cleanup_loop :: "nat \<Rightarrow> nat list \<Rightarrow> state \<Rightarrow> state" where
  "cleanup_loop w [] s = s"
| "cleanup_loop w (d # ds) s =
     cleanup_loop w ds (if d \<notin> newDepIds (watchers s w) then removeSub d w s else s)"

definition cleanupDeps :: "nat \<Rightarrow> state \<Rightarrow> state" where
  "cleanupDeps w s =
     (let s1 = cleanup_loop w (rev (deps (watchers s w))) s;
          tmpIds = depIds (watchers s1 w);
          s2 = upd_watcher w (\<lambda>x. x\<lparr>depIds := newDepIds x\<rparr>) s1;
          s3 = upd_watcher w (\<lambda>x. x\<lparr>newDepIds := tmpIds\<rparr>) s2;
          s4 = upd_watcher w (\<lambda>x. x\<lparr>newDepIds := {}\<rparr>) s3;
          tmp = deps (watchers s4 w);
          s5 = upd_watcher w (\<lambda>x. x\<lparr>deps := newDeps x\<rparr>) s4;
          s6 = upd_watcher w (\<lambda>x. x\<lparr>newDeps := tmp\<rparr>) s5
      in upd_watcher w (\<lambda>x. x\<lparr>newDeps := []\<rparr>) s6)"

text \<open>
  One run of a watcher's evaluation function, as the dependency machinery sees it:
  the Deps whose \<open>depend()\<close> it reaches, in order, and how it ends. \<open>traverse\<close> of
  \<open>./traverse\<close> is not among the sources; it is taken as the Deps whose \<open>depend()\<close>
  the walk of a value reaches.
\<close>

record evaluation =
  touched :: "nat list"
  outcome :: "jsval completion"
  traverse :: "jsval \<Rightarrow> nat list"

fun depend_all :: "nat list \<Rightarrow> state \<Rightarrow> state" where
  "depend_all [] s = s"
| "depend_all (d # ds) s = depend_all ds (depend d s)"

text \<open>
  \<open>Watcher.get\<close>. The \<open>try\<close> block runs the getter; the \<open>catch\<close> block hands the error
  to \<open>handleError\<close> for a user watcher and rethrows it otherwise; the \<open>finally\<close> block
  runs in both cases, and \<open>value\<close> is still \<open>undefined\<close> there after a throw.
\<close>

definition get :: "evaluation \<Rightarrow> nat \<Rightarrow> state \<Rightarrow> jsval completion \<times> state" where
  "get ev w s =
     (let s1 = pushTarget (TWatcher w) s;
          v = vm (watchers s1 w);
          s2 = depend_all (touched ev) s1;
          (val, pending, s3) =
             (case outcome ev of
                Return x \<Rightarrow> (x, None, s2)
              | Throw e \<Rightarrow>
                  if user (watchers s2 w)
                  then (Undefined, None, handleError e v ''getter for watcher'' s2)
                  else (Undefined, Some e, s2));
          s4 = (if deep (watchers s3 w) then depend_all (traverse ev val) s3 else s3);
          s5 = popTarget s4;
          s6 = cleanupDeps w s5
      in (case pending of None \<Rightarrow> Return val | Some e \<Rightarrow> Throw e, s6))"

text \<open>
  The callback of a watcher, as \<open>run\<close> sees it: how the call \<open>cb(value, oldValue)\<close>
  ends. Each call is recorded in \<open>cb_calls\<close> with its two arguments.
\<close>

type_synonym callback = "jsval \<Rightarrow> jsval \<Rightarrow> unit completion"

definition call_cb :: "callback \<Rightarrow> nat \<Rightarrow> jsval \<Rightarrow> jsval \<Rightarrow> state \<Rightarrow> unit completion \<times> state" where
  "call_cb cb w val oldValue s = (cb val oldValue, s\<lparr>cb_calls := cb_calls s @ [(w, val, oldValue)]\<rparr>)"

definition run :: "evaluation \<Rightarrow> callback \<Rightarrow> nat \<Rightarrow> state \<Rightarrow> unit completion \<times> state" where
  "run ev cb w s =
     (if active (watchers s w) then
        (case get ev w s of
           (Throw e, s1) \<Rightarrow> (Throw e, s1)
         | (Return val, s1) \<Rightarrow>
             if \<not> strict_eq val (cached (watchers s1 w)) \<or> isObject val \<or> deep (watchers s1 w)
             then
               (let oldValue = cached (watchers s1 w);
                    s2 = upd_watcher w (\<lambda>x. x\<lparr>cached := val\<rparr>) s1
                in if user (watchers s2 w) then
                     (case call_cb cb w val oldValue s2 of
                        (Throw e, s3) \<Rightarrow>
                          (Return (), handleError e (vm (watchers s3 w)) ''callback for watcher'' s3)
                      | (Return u, s3) \<Rightarrow> (Return (), s3))
                   else call_cb cb w val oldValue s2)
             else (Return (), s1))
      else (Return (), s))"

definition update :: "evaluation \<Rightarrow> callback \<Rightarrow> nat \<Rightarrow> state \<Rightarrow> unit completion \<times> state" where
  "update ev cb w s =
     (if lazy (watchers s w) then (Return (), upd_watcher w (\<lambda>x. x\<lparr>dirty := True\<rparr>) s)
      else if sync (watchers s w) then run ev cb w s
      else (Return (), queueWatcher w s))"

definition evaluate :: "evaluation \<Rightarrow> nat \<Rightarrow> state \<Rightarrow> unit completion \<times> state" where
  "evaluate ev w s =
     (case get ev w s of
        (Throw e, s1) \<Rightarrow> (Throw e, s1)
      | (Return val, s1) \<Rightarrow>
          (Return (), upd_watcher w (\<lambda>x. x\<lparr>dirty := False\<rparr>)
                        (upd_watcher w (\<lambda>x. x\<lparr>cached := val\<rparr>) s1)))"

fun teardown_loop :: "nat \<Rightarrow> nat list \<Rightarrow> state \<Rightarrow> state" where
  "teardown_loop w [] s = s"
| "teardown_loop w (d # ds) s = teardown_loop w ds (removeSub d w s)"

definition teardown :: "nat \<Rightarrow> state \<Rightarrow> state" where
  "teardown w s =
     (if active (watchers s w) then
        (let v = vm (watchers s w);
             s1 = (if \<not> isBeingDestroyed (vms s v)
                   then s\<lparr>vms := (vms s)(v := (vms s v)\<lparr>vm_watchers := remove (vm_watchers (vms s v)) w\<rparr>)\<rparr>
                   else s);
             s2 = teardown_loop w (rev (deps (watchers s1 w))) s1
         in upd_watcher w (\<lambda>x. x\<lparr>active := False\<rparr>) s2)
      else s)"

text \<open>\<open>Watcher.depend\<close>: the loop \<open>while (i--)\<close> calls \<open>depend()\<close> on the held Deps, last
  to first.\<close>

definition watcher_depend :: "nat \<Rightarrow> state \<Rightarrow> state" where
  "watcher_depend w s = depend_all (rev (deps (watchers s w))) s"

text \<open>
  The constructor. \<open>options\<close> is \<open>None\<close> when the argument is absent; the four flags
  are \<open>!!options.x\<close>. The expression is given as the evaluation its getter performs.
  The watcher is entered in \<open>vm._watchers\<close> (and in \<open>vm._watcher\<close> for the render
  watcher) before its id is drawn, and a watcher that is not lazy is evaluated once.
\<close>

record options =
  opt_deep :: bool
  opt_user :: bool
  opt_lazy :: bool
  opt_sync :: bool

definition new_watcher ::
  "nat \<Rightarrow> evaluation \<Rightarrow> options option \<Rightarrow> bool \<Rightarrow> state \<Rightarrow> nat completion \<times> state" where
  "new_watcher v ev opts isRenderWatcher s =
     (let w = watcher_uid s + 1;
          s1 = (if isRenderWatcher
                then s\<lparr>vms := (vms s)(v := (vms s v)\<lparr>render_watcher := Some w\<rparr>)\<rparr> else s);
          s2 = s1\<lparr>vms := (vms s1)(v := (vms s1 v)\<lparr>vm_watchers := vm_watchers (vms s1 v) @ [w]\<rparr>)\<rparr>;
          lz = (case opts of Some x \<Rightarrow> opt_lazy x | None \<Rightarrow> False);
          this = \<lparr>vm = v,
                  deep = (case opts of Some x \<Rightarrow> opt_deep x | None \<Rightarrow> False),
                  user = (case opts of Some x \<Rightarrow> opt_user x | None \<Rightarrow> False),
                  lazy = lz,
                  sync = (case opts of Some x \<Rightarrow> opt_sync x | None \<Rightarrow> False),
                  dirty = lz, active = True, deps = [], newDeps = [],
                  depIds = {}, newDepIds = {}, cached = Undefined\<rparr>;
          s3 = s2\<lparr>watcher_uid := w, watchers := (watchers s2)(w := this)\<rparr>
      in if lz then (Return w, s3)
         else (case get ev w s3 of
                 (Throw e, s4) \<Rightarrow> (Throw e, s4)
               | (Return val, s4) \<Rightarrow> (Return w, upd_watcher w (\<lambda>x. x\<lparr>cached := val\<rparr>) s4)))"

section \<open>Dep.notify\<close>

text \<open>
  The loop of \<open>notify\<close> over its local copy of the subscriber list. \<open>update()\<close> runs
  the watcher's code and the user's, so it is a parameter here: any function from a
  watcher and a state to a completion and a state. The loop stops at an \<open>update()\<close>
  that throws. The first component of the result lists the watchers whose
  \<open>update()\<close> was called, in the order of the calls.
\<close>

type_synonym updater = "nat \<Rightarrow> state \<Rightarrow> unit completion \<times> state"

fun dispatch :: "updater \<Rightarrow> nat list \<Rightarrow> state \<Rightarrow> nat list \<times> unit completion \<times> state" where
  "dispatch upd [] s = ([], Return (), s)"
| "dispatch upd (w # ws) s =
     (case upd w s of
        (Throw e, s1) \<Rightarrow> ([w], Throw e, s1)
      | (Return u, s1) \<Rightarrow>
          (case dispatch upd ws s1 of (called, r, s2) \<Rightarrow> (w # called, r, s2)))"

text \<open>\<open>subs.sort((a, b) => a.id - b.id)\<close>: ascending in the watchers' ids, which are the
  references themselves here.\<close>

definition notify :: "env \<Rightarrow> updater \<Rightarrow> nat \<Rightarrow> state \<Rightarrow> nat list \<times> unit completion \<times> state" where
  "notify en upd d s =
     (let snapshot = subs s d;
          snapshot' = (if \<not> production en \<and> \<not> async en
                       then sort_key (\<lambda>a. a) snapshot else snapshot)
      in dispatch upd snapshot' (s\<lparr>notified := notified s @ [d]\<rparr>))"

section \<open>The invariant of a watcher's subscriptions\<close>

text \<open>
  Between two evaluations of watcher \<open>w\<close>: the new generation is empty, \<open>depIds\<close> is the
  set of the ids in \<open>deps\<close>, \<open>w\<close> is subscribed to no Dep outside \<open>depIds\<close>, and \<open>w\<close>
  occurs at most once in a subscriber list.
\<close>

definition subscribed_once :: "state \<Rightarrow> nat \<Rightarrow> bool" where
  "subscribed_once s w = (\<forall>d. count_list (subs s d) w \<le> 1)"

definition settled :: "state \<Rightarrow> nat \<Rightarrow> bool" where
  "settled s w =
     (newDeps (watchers s w) = [] \<and> newDepIds (watchers s w) = {} \<and>
      set (deps (watchers s w)) = depIds (watchers s w) \<and>
      (\<forall>d. w \<in> set (subs s d) \<longrightarrow> d \<in> depIds (watchers s w)) \<and>
      subscribed_once s w)"

section \<open>The observer\<close>

text \<open>\<open>property.configurable\<close>.\<close>

fun configurable :: "descriptor \<Rightarrow> bool" where
  "configurable (Data v w c) = c"
| "configurable (Accessor g st slot c) = c"
| "configurable (Reactive d v b orig cs sh c) = c"

text \<open>\<open>property && property.get\<close> and \<open>property && property.set\<close>, as truth values.\<close>

fun has_getter :: "descriptor option \<Rightarrow> bool" where
  "has_getter (Some (Accessor g st slot c)) = g"
| "has_getter (Some (Reactive d v b orig cs sh c)) = True"
| "has_getter _ = False"

fun has_setter :: "descriptor option \<Rightarrow> bool" where
  "has_setter (Some (Accessor g st slot c)) = st"
| "has_setter (Some (Reactive d v b orig cs sh c)) = True"
| "has_setter _ = False"

text \<open>
  The value a property reads as, its getter not run; what \<open>if\<close>, \<open>&&\<close> and \<open>!\<close> take for
  true; the value of the own property of a name, \<open>undefined\<close> when there is none; and
  \<open>value._isVue\<close> as a truth value.
\<close>

fun held :: "descriptor \<Rightarrow> jsval" where
  "held (Data v w c) = v"
| "held (Accessor g st slot c) = (if g then slot else Undefined)"
| "held (Reactive d v b orig cs sh c) =
     (case orig of Some q \<Rightarrow> if has_getter (Some q) then held q else v | None \<Rightarrow> v)"

definition truthy :: "jsval \<Rightarrow> bool" where
  "truthy v =
     (case v of Undefined \<Rightarrow> False | Null \<Rightarrow> False | Boolean b \<Rightarrow> b | Number i \<Rightarrow> i \<noteq> 0
        | NaN \<Rightarrow> False | String x \<Rightarrow> x \<noteq> [] | Object r \<Rightarrow> True)"

definition own_value :: "jsobj \<Rightarrow> string \<Rightarrow> jsval" where
  "own_value x nm = (case map_of (props x) (Name nm) of Some p \<Rightarrow> held p | None \<Rightarrow> Undefined)"

definition isVue :: "jsobj \<Rightarrow> bool" where
  "isVue x = truthy (own_value x ''_isVue'')"

text \<open>
  \<open>Object.getOwnPropertyDescriptor(obj, key)\<close>: a property of \<open>props\<close>, or, of an array,
  an element or \<open>length\<close>.
\<close>

definition array_own :: "key \<Rightarrow> jsobj \<Rightarrow> descriptor option" where
  "array_own k x =
     (if klass x = ArrayObject then
        (case k of
           Index i \<Rightarrow> if i < length (items x) then Some (Data (items x ! i) True True) else None
         | Name nm \<Rightarrow>
             if nm = ''length'' then Some (Data (Number (int (length (items x)))) True False)
             else None)
      else None)"

definition getOwnPropertyDescriptor :: "nat \<Rightarrow> key \<Rightarrow> state \<Rightarrow> descriptor option" where
  "getOwnPropertyDescriptor obj k s =
     (case map_of (props (heap s obj)) k of
        Some p \<Rightarrow> Some p
      | None \<Rightarrow> array_own k (heap s obj))"

text \<open>Writing the own property \<open>k\<close>: in its place when the object has it, at the end
  otherwise.\<close>

fun put :: "key \<Rightarrow> descriptor \<Rightarrow> (key \<times> descriptor) list \<Rightarrow> (key \<times> descriptor) list" where
  "put k p [] = [(k, p)]"
| "put k p ((k', q) # ps) = (if k' = k then (k, p) # ps else (k', q) # put k p ps)"

definition upd_object :: "nat \<Rightarrow> (jsobj \<Rightarrow> jsobj) \<Rightarrow> state \<Rightarrow> state" where
  "upd_object obj f s = s\<lparr>heap := (heap s)(obj := f (heap s obj))\<rparr>"

text \<open>A change to the property \<open>k\<close> of \<open>props\<close>, when there is one.\<close>

definition upd_prop :: "nat \<Rightarrow> key \<Rightarrow> (descriptor \<Rightarrow> descriptor) \<Rightarrow> state \<Rightarrow> state" where
  "upd_prop obj k f s =
     (case map_of (props (heap s obj)) k of
        None \<Rightarrow> s
      | Some p \<Rightarrow> upd_object obj (\<lambda>x. x\<lparr>props := put k (f p) (props x)\<rparr>) s)"

text \<open>
  A closure of \<open>defineReactive\<close> is known by its Dep, which no other closure has.
  \<open>in_closure d f\<close> changes the closure of Dep \<open>d\<close> wherever it stands in a property:
  at the top, or as the accessor an outer closure replaced. \<open>in_accessor f\<close> changes
  the value kept by the user's accessor pair at the bottom.
\<close>

fun in_closure :: "nat \<Rightarrow> (descriptor \<Rightarrow> descriptor) \<Rightarrow> descriptor \<Rightarrow> descriptor" where
  "in_closure d f (Reactive d' v b orig cs sh c) =
     (if d' = d then f (Reactive d' v b orig cs sh c)
      else Reactive d' v b (case orig of None \<Rightarrow> None | Some q \<Rightarrow> Some (in_closure d f q)) cs sh c)"
| "in_closure d f p = p"

fun in_accessor :: "(jsval \<Rightarrow> jsval) \<Rightarrow> descriptor \<Rightarrow> descriptor" where
  "in_accessor f (Accessor g st slot c) = Accessor g st (f slot) c"
| "in_accessor f (Reactive d v b orig cs sh c) =
     Reactive d v b (case orig of None \<Rightarrow> None | Some q \<Rightarrow> Some (in_accessor f q)) cs sh c"
| "in_accessor f p = p"

fun set_val :: "jsval \<Rightarrow> descriptor \<Rightarrow> descriptor" where
  "set_val x (Reactive d v b orig cs sh c) = Reactive d x b orig cs sh c"
| "set_val x p = p"

fun set_childOb :: "nat option \<Rightarrow> descriptor \<Rightarrow> descriptor" where
  "set_childOb x (Reactive d v b orig cs sh c) = Reactive d v x orig cs sh c"
| "set_childOb x p = p"

text \<open>\<open>new Dep()\<close>.\<close>

definition new_Dep :: "state \<Rightarrow> nat \<times> state" where
  "new_Dep s = (dep_uid s, s\<lparr>dep_uid := dep_uid s + 1, subs := (subs s)(dep_uid s := [])\<rparr>)"

text \<open>
  The recursive functions take the number of nested calls the stack still has room
  for; a call beyond it ends as the engine ends it, with a \<open>RangeError\<close>.

  A loop over a list: the body on each element in turn, until one throws.
\<close>

fun for_each ::
  "('a \<Rightarrow> state \<Rightarrow> 'b completion \<times> state) \<Rightarrow> 'a list \<Rightarrow> state \<Rightarrow> unit completion \<times> state" where
  "for_each body [] s = (Return (), s)"
| "for_each body (x # xs) s =
     (case body x s of
        (Throw e, s1) \<Rightarrow> (Throw e, s1)
      | (Return u, s1) \<Rightarrow> for_each body xs s1)"

text \<open>
  \<open>dependArray\<close>. One element: \<open>e && e.__ob__ && e.__ob__.dep.depend()\<close>, then, when
  \<open>e\<close> is an array, the call \<open>dependArray(e)\<close>, given as \<open>rec\<close>. Under an \<open>__ob__\<close> that is
  truthy and not an Observer there is no \<open>dep\<close> with a \<open>depend\<close> to call, which is a
  \<open>TypeError\<close>. The knot is tied on the depth.
\<close>

definition element_depend :: "jsval \<Rightarrow> state \<Rightarrow> unit completion \<times> state" where
  "element_depend e s =
     (case e of
        Object r \<Rightarrow>
          (case ob (heap s r) of
             Some b \<Rightarrow> (Return (), depend (ob_dep (observers s b)) s)
           | None \<Rightarrow>
               if truthy (own_value (heap s r) ''__ob__'') then (Throw TypeError, s)
               else (Return (), s))
      | _ \<Rightarrow> (Return (), s))"

definition dependArray_step ::
  "(jsval list \<Rightarrow> state \<Rightarrow> unit completion \<times> state) \<Rightarrow> jsval list \<Rightarrow> state
     \<Rightarrow> unit completion \<times> state" where
  "dependArray_step rec es s =
     for_each
       (\<lambda>e s0. case element_depend e s0 of
                  (Throw x, s1) \<Rightarrow> (Throw x, s1)
                | (Return u, s1) \<Rightarrow>
                    (case e of
                       Object r \<Rightarrow>
                         if klass (heap s1 r) = ArrayObject then rec (items (heap s1 r)) s1
                         else (Return (), s1)
                     | _ \<Rightarrow> (Return (), s1)))
       es s"

fun dependArray :: "nat \<Rightarrow> jsval list \<Rightarrow> state \<Rightarrow> unit completion \<times> state" where
  "dependArray 0 = dependArray_step (\<lambda>es s. (Throw RangeError, s))"
| "dependArray (Suc n) = dependArray_step (dependArray n)"

text \<open>
  Calling the getter of a property: the user's getter returns the value its pair
  keeps, and the getter installed by \<open>defineReactive\<close> is \<open>reactiveGetter\<close>, the third
  equation.
\<close>

fun call_getter :: "nat \<Rightarrow> descriptor \<Rightarrow> state \<Rightarrow> jsval completion \<times> state" where
  "call_getter n (Data v w c) s = (Return v, s)"
| "call_getter n (Accessor g st slot c) s = (Return (if g then slot else Undefined), s)"
| "call_getter n (Reactive d val childOb orig cs sh c) s =
     (case (case orig of
              Some q \<Rightarrow> if has_getter (Some q) then call_getter n q s else (Return val, s)
            | None \<Rightarrow> (Return val, s)) of
        (Throw x, s1) \<Rightarrow> (Throw x, s1)
      | (Return v, s1) \<Rightarrow>
          (case dep_target s1 of
             TWatcher w \<Rightarrow>
               (let s2 = depend d s1
                in case childOb of
                     Some b \<Rightarrow>
                       (let s3 = depend (ob_dep (observers s2 b)) s2
                        in case v of
                             Object r \<Rightarrow>
                               if klass (heap s3 r) = ArrayObject then
                                 (case dependArray n (items (heap s3 r)) s3 of
                                    (Throw x, s4) \<Rightarrow> (Throw x, s4)
                                  | (Return u, s4) \<Rightarrow> (Return v, s4))
                               else (Return v, s3)
                           | _ \<Rightarrow> (Return v, s3))
                   | None \<Rightarrow> (Return v, s2))
           | _ \<Rightarrow> (Return v, s1)))"

text \<open>Reading \<open>obj[key]\<close>; a key the object does not own reads as \<open>undefined\<close>.\<close>

definition read :: "nat \<Rightarrow> nat \<Rightarrow> key \<Rightarrow> state \<Rightarrow> jsval completion \<times> state" where
  "read n obj k s =
     (case getOwnPropertyDescriptor obj k s of
        None \<Rightarrow> (Return Undefined, s)
      | Some p \<Rightarrow> call_getter n p s)"

text \<open>
  \<open>observe\<close>, the constructor of \<open>Observer\<close>, \<open>walk\<close>, \<open>observeArray\<close> and
  \<open>defineReactive\<close> call one another. Each is first written with the function it
  calls as a parameter, and the knot is tied below, on the depth of the stack.
  \<open>walk\<close> and \<open>observeArray\<close> are the two loops of the constructor.
\<close>

type_synonym observing = "jsval \<Rightarrow> state \<Rightarrow> nat option completion \<times> state"

text \<open>
  \<open>defineReactive(obj, key, val, customSetter, shallow)\<close>, with \<open>obs\<close> for the call
  \<open>observe(val)\<close>. The argument \<open>val\<close> is \<open>None\<close> in a call with two arguments
  (\<open>arguments.length === 2\<close>), which passes no \<open>customSetter\<close> and no \<open>shallow\<close>. The
  closure keeps of the property it replaces what has a getter or a setter.
  \<open>Object.defineProperty\<close> throws a \<open>TypeError\<close> on a new key of an object that is
  not extensible, and the property it defines is configurable.
\<close>

definition defineReactive_step ::
  "observing \<Rightarrow> nat \<Rightarrow> nat \<Rightarrow> key \<Rightarrow> jsval option \<Rightarrow> bool \<Rightarrow> bool \<Rightarrow> state
     \<Rightarrow> unit completion \<times> state" where
  "defineReactive_step obs n obj k val customSetter shallow s =
     (let (d, s1) = new_Dep s;
          property = getOwnPropertyDescriptor obj k s1
      in if (case property of Some p \<Rightarrow> \<not> configurable p | None \<Rightarrow> False) then (Return (), s1)
         else
           (case (if (\<not> has_getter property \<or> has_setter property) \<and> val = None
                  then read n obj k s1
                  else (Return (case val of Some x \<Rightarrow> x | None \<Rightarrow> Undefined), s1)) of
              (Throw x, s2) \<Rightarrow> (Throw x, s2)
            | (Return v, s2) \<Rightarrow>
                (case (if shallow then (Return None, s2) else obs v s2) of
                   (Throw x, s3) \<Rightarrow> (Throw x, s3)
                 | (Return childOb, s3) \<Rightarrow>
                     if getOwnPropertyDescriptor obj k s3 = None \<and> \<not> extensible (heap s3 obj)
                     then (Throw TypeError, s3)
                     else (Return (),
                           upd_object obj
                             (\<lambda>x. x\<lparr>props :=
                                put k (Reactive d v childOb
                                         (if has_getter property \<or> has_setter property
                                          then property else None)
                                         customSetter shallow True)
                                    (props x)\<rparr>) s3))))"

text \<open>
  \<open>def(value, '__ob__', this)\<close> with Observer \<open>b\<close> for \<open>this\<close>. Modelled from the spec:
  \<open>def\<close> of \<open>../util/index\<close> is not among the sources; the spec has the wrapper store
  "the marker (non-enumerable, back-reference) on the container", which is
  \<open>Object.defineProperty\<close> with a value, writable, configurable and not enumerable.
  It replaces an own \<open>__ob__\<close> that is configurable, adds one to an object that is
  extensible, and is a \<open>TypeError\<close> otherwise.
\<close>

definition def_ob :: "nat \<Rightarrow> nat \<Rightarrow> state \<Rightarrow> unit completion \<times> state" where
  "def_ob r b s =
     (let x = heap s r
      in if (case ob x of
               Some b0 \<Rightarrow> \<not> ob_configurable x
             | None \<Rightarrow>
                 (case map_of (props x) (Name ''__ob__'') of
                    Some p \<Rightarrow> \<not> configurable p
                  | None \<Rightarrow> \<not> extensible x))
         then (Throw TypeError, s)
         else (Return (),
               upd_object r
                 (\<lambda>x. x\<lparr>ob := Some b, ob_writable := True, ob_configurable := True,
                        props := filter (\<lambda>(k, p). k \<noteq> Name ''__ob__'') (props x)\<rparr>) s))"

text \<open>The constructor of \<open>Observer\<close>, which returns the new Observer: after \<open>def\<close>,
  \<open>walk\<close> over \<open>Object.keys(obj)\<close> or \<open>observeArray\<close> over the elements. \<open>protoAugment\<close>
  changes the functions an array inherits and none of their names.\<close>

definition Observer_step :: "observing \<Rightarrow> nat \<Rightarrow> nat \<Rightarrow> state \<Rightarrow> nat completion \<times> state" where
  "Observer_step obs n r s =
     (let b = observer_uid s;
          (d, s1) = new_Dep s;
          s2 = s1\<lparr>observer_uid := b + 1,
                  observers := (observers s1)(b := \<lparr>ob_value = r, ob_dep = d, vmCount = 0\<rparr>)\<rparr>
      in case def_ob r b s2 of
           (Throw x, s3) \<Rightarrow> (Throw x, s3)
         | (Return u0, s3) \<Rightarrow>
             (case (if klass (heap s3 r) = ArrayObject
                    then for_each obs (items (heap s3 r)) s3
                    else for_each (\<lambda>k. defineReactive_step obs n r k None False False)
                           (map fst (props (heap s3 r))) s3) of
                (Throw x, s4) \<Rightarrow> (Throw x, s4)
              | (Return u, s4) \<Rightarrow> (Return b, s4)))"

text \<open>\<open>observe(value, asRootData)\<close>, with \<open>ctor\<close> for \<open>new Observer(value)\<close>; it returns the
  Observer or \<open>undefined\<close> (\<open>None\<close>).\<close>

definition observe_step ::
  "(nat \<Rightarrow> state \<Rightarrow> nat completion \<times> state) \<Rightarrow> env \<Rightarrow> jsval \<Rightarrow> bool \<Rightarrow> state
     \<Rightarrow> nat option completion \<times> state" where
  "observe_step ctor en val asRootData s =
     (case val of
        Object r \<Rightarrow>
          if klass (heap s r) = VNodeObject then (Return None, s)
          else
            (case (case ob (heap s r) of
                     Some b \<Rightarrow> (Return (Some b), s)
                   | None \<Rightarrow>
                       if shouldObserve s \<and> \<not> serverRendering en \<and>
                          (klass (heap s r) = ArrayObject \<or> klass (heap s r) = PlainObject) \<and>
                          extensible (heap s r) \<and> \<not> isVue (heap s r)
                       then (case ctor r s of
                               (Throw x, s1) \<Rightarrow> (Throw x, s1)
                             | (Return b, s1) \<Rightarrow> (Return (Some b), s1))
                       else (Return None, s)) of
               (Throw x, s1) \<Rightarrow> (Throw x, s1)
             | (Return None, s1) \<Rightarrow> (Return None, s1)
             | (Return (Some b), s1) \<Rightarrow>
                 (Return (Some b),
                  if asRootData
                  then s1\<lparr>observers :=
                         (observers s1)(b := (observers s1 b)\<lparr>vmCount := vmCount (observers s1 b) + 1\<rparr>)\<rparr>
                  else s1))
      | _ \<Rightarrow> (Return None, s))"

text \<open>The knot: with room for \<open>n\<close> nested constructions. The constructor at depth
  \<open>n + 1\<close> observes what it finds with \<open>observe\<close> at depth \<open>n\<close>; at depth 0 it cannot be
  entered.\<close>

fun observe :: "nat \<Rightarrow> env \<Rightarrow> jsval \<Rightarrow> bool \<Rightarrow> state \<Rightarrow> nat option completion \<times> state" where
  "observe 0 en = observe_step (\<lambda>r s. (Throw RangeError, s)) en"
| "observe (Suc n) en = observe_step (Observer_step (\<lambda>v. observe n en v False) n) en"

definition defineReactive ::
  "nat \<Rightarrow> env \<Rightarrow> nat \<Rightarrow> key \<Rightarrow> jsval option \<Rightarrow> bool \<Rightarrow> bool \<Rightarrow> state \<Rightarrow> unit completion \<times> state" where
  "defineReactive n en = defineReactive_step (\<lambda>v. observe n en v False) n"

definition observeArray :: "nat \<Rightarrow> env \<Rightarrow> jsval list \<Rightarrow> state \<Rightarrow> unit completion \<times> state" where
  "observeArray n en = for_each (\<lambda>v. observe n en v False)"

text \<open>
  Calling the setter of a property with \<open>newVal\<close>. The user's setter stores \<open>newVal\<close> in
  the value its pair keeps. The setter installed by \<open>defineReactive\<close> is
  \<open>reactiveSetter\<close>, the third equation; what it assigns to \<open>val\<close> and \<open>childOb\<close> goes
  to its closure, found by its Dep in the property \<open>obj[k]\<close>. A \<open>customSetter\<close> is
  code of the caller: its call is recorded as a warning.
\<close>

fun call_setter ::
  "nat \<Rightarrow> env \<Rightarrow> updater \<Rightarrow> nat \<Rightarrow> key \<Rightarrow> descriptor \<Rightarrow> jsval \<Rightarrow> state \<Rightarrow> unit completion \<times> state" where
  "call_setter n en upd obj k (Data v w c) newVal s = (Return (), s)"
| "call_setter n en upd obj k (Accessor g st slot c) newVal s =
     (Return (), upd_prop obj k (in_accessor (\<lambda>x. newVal)) s)"
| "call_setter n en upd obj k (Reactive d val childOb orig cs sh c) newVal s =
     (case (case orig of
              Some q \<Rightarrow> if has_getter (Some q) then call_getter n q s else (Return val, s)
            | None \<Rightarrow> (Return val, s)) of
        (Throw x, s1) \<Rightarrow> (Throw x, s1)
      | (Return v, s1) \<Rightarrow>
          if strict_eq newVal v \<or> (\<not> strict_eq newVal newVal \<and> \<not> strict_eq v v)
          then (Return (), s1)
          else
            (let s2 = (if \<not> production en \<and> cs then warn ''customSetter'' s1 else s1)
             in if has_getter orig \<and> \<not> has_setter orig then (Return (), s2)
                else
                  (case (case orig of
                           Some q \<Rightarrow>
                             if has_setter (Some q) then call_setter n en upd obj k q newVal s2
                             else (Return (), upd_prop obj k (in_closure d (set_val newVal)) s2)
                         | None \<Rightarrow> (Return (), upd_prop obj k (in_closure d (set_val newVal)) s2)) of
                     (Throw x, s3) \<Rightarrow> (Throw x, s3)
                   | (Return u, s3) \<Rightarrow>
                       (case (if sh then (Return None, s3) else observe n en newVal False s3) of
                          (Throw x, s4) \<Rightarrow> (Throw x, s4)
                        | (Return b, s4) \<Rightarrow>
                            (case notify en upd d
                                    (upd_prop obj k (in_closure d (set_childOb b)) s4) of
                               (called, r, s5) \<Rightarrow> (r, s5))))))"

text \<open>\<open>key in Object.prototype\<close>, and \<open>key in target\<close> for an object: an own key (a
  property of \<open>props\<close>, the \<open>__ob__\<close> that holds an Observer, an element or the \<open>length\<close>
  of an array) or an inherited one.\<close>

definition object_prototype :: "key list" where
  "object_prototype =
     map Name [''constructor'', ''hasOwnProperty'', ''isPrototypeOf'', ''propertyIsEnumerable'',
       ''toLocaleString'', ''toString'', ''valueOf'', ''__proto__'', ''__defineGetter__'',
       ''__defineSetter__'', ''__lookupGetter__'', ''__lookupSetter__'']"

definition key_in :: "key \<Rightarrow> jsobj \<Rightarrow> bool" where
  "key_in k x =
     (k \<in> fst ` set (props x) \<or> (k = Name ''__ob__'' \<and> ob x \<noteq> None) \<or>
      array_own k x \<noteq> None \<or> k \<in> set (inherited x))"

text \<open>
  The length a value assigned to \<open>length\<close> stands for: a number, \<open>null\<close> and the
  booleans convert as the language has it, \<open>undefined\<close> and \<open>NaN\<close> are no length, and a
  string or an object converts as \<open>toLength\<close> says.
\<close>

definition to_length :: "env \<Rightarrow> jsval \<Rightarrow> state \<Rightarrow> nat completion" where
  "to_length en v s =
     (case v of
        Number i \<Rightarrow> if 0 \<le> i \<and> i < 4294967296 then Return (nat i) else Throw RangeError
      | Boolean b \<Rightarrow> Return (if b then 1 else 0)
      | Null \<Rightarrow> Return 0
      | Undefined \<Rightarrow> Throw RangeError
      | NaN \<Rightarrow> Throw RangeError
      | _ \<Rightarrow> toLength en v s)"

text \<open>An element written at \<open>i\<close>: in its place, or past the end, the array filled with
  holes up to it.\<close>

definition splice_in :: "nat \<Rightarrow> jsval \<Rightarrow> jsval list \<Rightarrow> jsval list" where
  "splice_in i v xs =
     (if i < length xs then xs[i := v] else xs @ replicate (i - length xs) Undefined @ [v])"

text \<open>
  The assignment \<open>obj[k] = v\<close> in strict code. The \<open>__ob__\<close> that holds an Observer is
  overwritten when it is writable, and holds \<open>v\<close> from then on. A data property is
  written when it is writable and an accessor property has its setter called. Of
  an array, \<open>length\<close> is set, which cuts the elements or adds holes, and an element
  is written. A key the object does not own is added when the object is
  extensible; anything else is a \<open>TypeError\<close>.
\<close>

definition assign ::
  "nat \<Rightarrow> env \<Rightarrow> updater \<Rightarrow> nat \<Rightarrow> key \<Rightarrow> jsval \<Rightarrow> state \<Rightarrow> unit completion \<times> state" where
  "assign n en upd obj k v s =
     (let x = heap s obj
      in if k = Name ''__ob__'' \<and> ob x \<noteq> None then
           (if ob_writable x
            then (Return (),
                  upd_object obj
                    (\<lambda>x. x\<lparr>ob := None,
                           props := put k (Data v True (ob_configurable x)) (props x)\<rparr>) s)
            else (Throw TypeError, s))
         else
           (case map_of (props x) k of
              Some (Data old w c) \<Rightarrow>
                if w then (Return (), upd_prop obj k (\<lambda>p. Data v w c) s) else (Throw TypeError, s)
            | Some p \<Rightarrow>
                if has_setter (Some p) then call_setter n en upd obj k p v s
                else (Throw TypeError, s)
            | None \<Rightarrow>
                if klass x = ArrayObject \<and> k = Name ''length'' then
                  (case to_length en v s of
                     Throw e \<Rightarrow> (Throw e, s)
                   | Return l \<Rightarrow>
                       (Return (),
                        upd_object obj
                          (\<lambda>x. x\<lparr>items := take l (items x) @
                                            replicate (l - length (items x)) Undefined\<rparr>) s))
                else if klass x = ArrayObject \<and> (case k of Index i \<Rightarrow> True | Name nm \<Rightarrow> False) then
                  (let i = (case k of Index j \<Rightarrow> j | Name nm \<Rightarrow> 0)
                   in if i < length (items x) \<or> extensible x
                      then (Return (), upd_object obj (\<lambda>x. x\<lparr>items := splice_in i v (items x)\<rparr>) s)
                      else (Throw TypeError, s))
                else if extensible x
                then (Return (),
                      upd_object obj (\<lambda>x. x\<lparr>props := put k (Data v True True) (props x)\<rparr>) s)
                else (Throw TypeError, s)))"

text \<open>
  Modelled from the spec: \<open>isValidArrayIndex\<close> of \<open>../util/index\<close> and the interception
  of \<open>splice\<close> in \<open>./array\<close> are not among the sources. The spec speaks of "index/length
  changes on sequences" and has every mutating operation of a wrapped sequence
  notify "the identity-Dependency and, for inserted container elements, wrap them".
  \<open>target.length = Math.max(target.length, key)\<close> followed by \<open>splice(key, 1, val)\<close>
  replaces the element at \<open>key\<close> or extends the array up to it; past the end of an
  array that is not extensible the length is set and \<open>splice\<close> throws a \<open>TypeError\<close>.
\<close>

definition isValidArrayIndex :: "key \<Rightarrow> bool" where
  "isValidArrayIndex k = (case k of Index i \<Rightarrow> True | Name x \<Rightarrow> False)"

definition array_set ::
  "nat \<Rightarrow> env \<Rightarrow> updater \<Rightarrow> nat \<Rightarrow> key \<Rightarrow> jsval \<Rightarrow> state \<Rightarrow> unit completion \<times> state" where
  "array_set n en upd r k v s =
     (let i = (case k of Index j \<Rightarrow> j | Name x \<Rightarrow> 0)
      in if i < length (items (heap s r)) \<or> extensible (heap s r) then
           (let s1 = upd_object r (\<lambda>x. x\<lparr>items := splice_in i v (items x)\<rparr>) s
            in case ob (heap s1 r) of
                 None \<Rightarrow> (Return (), s1)
               | Some b \<Rightarrow>
                   (case observeArray n en [v] s1 of
                      (Throw e, s2) \<Rightarrow> (Throw e, s2)
                    | (Return u, s2) \<Rightarrow>
                        (case notify en upd (ob_dep (observers s b)) s2 of
                           (called, c, s3) \<Rightarrow> (c, s3))))
         else (Throw TypeError,
               upd_object r
                 (\<lambda>x. x\<lparr>items := items x @ replicate (i - length (items x)) Undefined\<rparr>) s))"

text \<open>
  \<open>defineReactive(x, key, val)\<close> for any value \<open>x\<close>, as \<open>set\<close> calls it on \<open>ob.value\<close>.
  On \<open>undefined\<close> and \<open>null\<close>, \<open>Object.getOwnPropertyDescriptor\<close> throws a \<open>TypeError\<close>,
  after \<open>new Dep()\<close>. A primitive has no own property but the \<open>length\<close> and the
  characters of a string, which are not configurable; on any other key
  \<open>observe(val)\<close> is followed by the \<open>TypeError\<close> of \<open>Object.defineProperty\<close>.
\<close>

definition defineReactive_on ::
  "nat \<Rightarrow> env \<Rightarrow> jsval \<Rightarrow> key \<Rightarrow> jsval \<Rightarrow> state \<Rightarrow> unit completion \<times> state" where
  "defineReactive_on n en x k val s =
     (case x of
        Object r \<Rightarrow> defineReactive n en r k (Some val) False False s
      | Undefined \<Rightarrow> (Throw TypeError, snd (new_Dep s))
      | Null \<Rightarrow> (Throw TypeError, snd (new_Dep s))
      | _ \<Rightarrow>
          if (case x of
                String t \<Rightarrow> (case k of Index i \<Rightarrow> i < length t | Name nm \<Rightarrow> nm = ''length'')
              | _ \<Rightarrow> False)
          then (Return (), snd (new_Dep s))
          else
            (case observe n en val False (snd (new_Dep s)) of
               (Throw e, s2) \<Rightarrow> (Throw e, s2)
             | (Return c, s2) \<Rightarrow> (Throw TypeError, s2)))"

text \<open>The property \<open>nm\<close> of a value, as \<open>set\<close> reads \<open>vmCount\<close> and \<open>value\<close> off
  \<open>target.__ob__\<close>.\<close>

definition prop_of :: "jsval \<Rightarrow> string \<Rightarrow> state \<Rightarrow> jsval" where
  "prop_of v nm s = (case v of Object r \<Rightarrow> own_value (heap s r) nm | _ \<Rightarrow> Undefined)"

text \<open>
  \<open>set(target, key, val)\<close>. \<open>Array.isArray\<close> is false of what is not an object, and
  \<open>key in target\<close> throws a \<open>TypeError\<close> when \<open>target\<close> is not an object. \<open>ob\<close> is
  \<open>target.__ob__\<close>: an Observer, whose \<open>dep\<close> and \<open>value\<close> are those it was made with, or
  another value, under which \<open>ob.dep.notify()\<close> finds nothing to call and is a
  \<open>TypeError\<close>.
\<close>

definition set_api ::
  "nat \<Rightarrow> env \<Rightarrow> updater \<Rightarrow> jsval \<Rightarrow> key \<Rightarrow> jsval \<Rightarrow> state \<Rightarrow> jsval completion \<times> state" where
  "set_api n en upd target k val s =
     (let s0 = (if \<not> production en \<and> (isUndef target \<or> isPrimitive target)
                then warn ''Cannot set reactive property on undefined, null, or primitive value'' s
                else s)
      in case target of
           Object r \<Rightarrow>
             if klass (heap s0 r) = ArrayObject \<and> isValidArrayIndex k then
               (case array_set n en upd r k val s0 of
                  (Throw e, s1) \<Rightarrow> (Throw e, s1)
                | (Return u, s1) \<Rightarrow> (Return val, s1))
             else if key_in k (heap s0 r) \<and> k \<notin> set object_prototype then
               (case assign n en upd r k val s0 of
                  (Throw e, s1) \<Rightarrow> (Throw e, s1)
                | (Return u, s1) \<Rightarrow> (Return val, s1))
             else
               (case ob (heap s0 r) of
                  Some b \<Rightarrow>
                    if isVue (heap s0 r) \<or> vmCount (observers s0 b) \<noteq> 0 then
                      (Return val,
                       if \<not> production en
                       then warn ''Avoid adding reactive properties to a Vue instance or its root $data'' s0
                       else s0)
                    else
                      (case defineReactive n en (ob_value (observers s0 b)) k (Some val) False False s0 of
                         (Throw e, s1) \<Rightarrow> (Throw e, s1)
                       | (Return u, s1) \<Rightarrow>
                           (case notify en upd (ob_dep (observers s0 b)) s1 of
                              (called, Throw e, s2) \<Rightarrow> (Throw e, s2)
                            | (called, Return u, s2) \<Rightarrow> (Return val, s2)))
                | None \<Rightarrow>
                    (let v = own_value (heap s0 r) ''__ob__''
                     in if isVue (heap s0 r) \<or> (truthy v \<and> truthy (prop_of v ''vmCount'' s0)) then
                          (Return val,
                           if \<not> production en
                           then warn ''Avoid adding reactive properties to a Vue instance or its root $data'' s0
                           else s0)
                        else if \<not> truthy v then
                          (case assign n en upd r k val s0 of
                             (Throw e, s1) \<Rightarrow> (Throw e, s1)
                           | (Return u, s1) \<Rightarrow> (Return val, s1))
                        else
                          (case defineReactive_on n en (prop_of v ''value'' s0) k val s0 of
                             (Throw e, s1) \<Rightarrow> (Throw e, s1)
                           | (Return u, s1) \<Rightarrow> (Throw TypeError, s1))))
         | _ \<Rightarrow> (Throw TypeError, s0))"

section \<open>What an evaluation does, stated apart from the code\<close>

text \<open>The local \<open>value\<close> of \<open>get\<close> when its \<open>finally\<close> block runs.\<close>

definition result_value :: "evaluation \<Rightarrow> jsval" where
  "result_value ev = (case outcome ev of Return x \<Rightarrow> x | Throw e \<Rightarrow> Undefined)"

text \<open>The Deps whose \<open>depend()\<close> is reached while \<open>get\<close> evaluates watcher \<open>w\<close>: those of
  the getter, then those of the deep walk when the watcher is deep.\<close>

definition reached :: "evaluation \<Rightarrow> nat \<Rightarrow> state \<Rightarrow> nat list" where
  "reached ev w s =
     touched ev @ (if deep (watchers s w) then traverse ev (result_value ev) else [])"

text \<open>How \<open>get\<close> ends, and what it hands to the error sink.\<close>

definition get_completion :: "evaluation \<Rightarrow> nat \<Rightarrow> state \<Rightarrow> jsval completion" where
  "get_completion ev w s =
     (case outcome ev of
        Return x \<Rightarrow> Return x
      | Throw e \<Rightarrow> if user (watchers s w) then Return Undefined else Throw e)"

definition get_reports :: "evaluation \<Rightarrow> nat \<Rightarrow> state \<Rightarrow> report list" where
  "get_reports ev w s =
     (case outcome ev of
        Return x \<Rightarrow> []
      | Throw e \<Rightarrow> if user (watchers s w)
                   then [Handled e (vm (watchers s w)) ''getter for watcher''] else [])"

text \<open>The state of \<open>get\<close> at the end of its \<open>try\<close>/\<open>catch\<close> and of the deep walk, before
  \<open>popTarget\<close>.\<close>

definition collected :: "evaluation \<Rightarrow> nat \<Rightarrow> state \<Rightarrow> state" where
  "collected ev w s =
     (let s2 = depend_all (touched ev) (pushTarget (TWatcher w) s);
          s3 = (case outcome ev of
                  Return x \<Rightarrow> s2
                | Throw e \<Rightarrow> if user (watchers s w)
                    then handleError e (vm (watchers s w)) ''getter for watcher'' s2 else s2)
      in if deep (watchers s w) then depend_all (traverse ev (result_value ev)) s3 else s3)"

text \<open>While watcher \<open>w\<close> is the target and collects: both generations list what their
  id sets hold, and \<open>w\<close> is subscribed only to Deps of one of the two generations.\<close>

definition collecting :: "state \<Rightarrow> nat \<Rightarrow> bool" where
  "collecting s w =
     (dep_target s = TWatcher w \<and>
      set (newDeps (watchers s w)) = newDepIds (watchers s w) \<and>
      set (deps (watchers s w)) = depIds (watchers s w) \<and>
      (\<forall>d. w \<in> set (subs s d) \<longrightarrow> d \<in> depIds (watchers s w) \<union> newDepIds (watchers s w)) \<and>
      subscribed_once s w)"

text \<open>The condition under which \<open>run\<close> calls the callback:
  \<open>value !== this.value || isObject(value) || this.deep\<close>.\<close>

definition fires :: "jsval \<Rightarrow> nat \<Rightarrow> state \<Rightarrow> bool" where
  "fires val w s =
     (\<not> strict_eq val (cached (watchers s w)) \<or> isObject val \<or> deep (watchers s w))"

text \<open>The list \<open>notify\<close> iterates over: the copy of \<open>subs\<close>, sorted when the build is not
  a production build and \<open>config.async\<close> is off.\<close>

definition snapshot_of :: "env \<Rightarrow> nat \<Rightarrow> state \<Rightarrow> nat list" where
  "snapshot_of en d s =
     (if \<not> production en \<and> \<not> async en then sort_key (\<lambda>a. a) (subs s d) else subs s d)"

text \<open>
  What \<open>reactiveSetter\<close> does, stated apart. \<open>getter_read\<close> is its first line,
  \<open>getter ? getter.call(obj) : val\<close>, and \<open>setter_write\<close> is
  \<open>if (setter) { setter.call(obj, newVal) } else { val = newVal }\<close>. A read changes
  nothing but the subscriptions of the target watcher (\<open>reads_only\<close>). The property
  the closure replaced is not itself one of \<open>defineReactive\<close> (\<open>plain_original\<close>);
  the value a read of the closure yields then; the test \<open>newVal === value || (newVal
  !== newVal && value !== value)\<close>; and the state after the call of the
  \<open>customSetter\<close>, which is made outside production builds when one was given.
\<close>

definition getter_read :: "nat \<Rightarrow> jsval \<Rightarrow> descriptor option \<Rightarrow> state \<Rightarrow> jsval completion \<times> state" where
  "getter_read n val orig s =
     (case orig of
        Some q \<Rightarrow> if has_getter (Some q) then call_getter n q s else (Return val, s)
      | None \<Rightarrow> (Return val, s))"

definition setter_write ::
  "nat \<Rightarrow> env \<Rightarrow> updater \<Rightarrow> nat \<Rightarrow> key \<Rightarrow> nat \<Rightarrow> descriptor option \<Rightarrow> jsval \<Rightarrow> state
     \<Rightarrow> unit completion \<times> state" where
  "setter_write n en upd obj k d orig newVal s =
     (case orig of
        Some q \<Rightarrow>
          if has_setter (Some q) then call_setter n en upd obj k q newVal s
          else (Return (), upd_prop obj k (in_closure d (set_val newVal)) s)
      | None \<Rightarrow> (Return (), upd_prop obj k (in_closure d (set_val newVal)) s))"

definition reads_only :: "state \<Rightarrow> state \<Rightarrow> bool" where
  "reads_only s s' =
     (dep_uid s' = dep_uid s \<and> dep_target s' = dep_target s \<and>
      targetStack s' = targetStack s \<and> watcher_uid s' = watcher_uid s \<and>
      vms s' = vms s \<and> queue s' = queue s \<and> reports s' = reports s \<and>
      cb_calls s' = cb_calls s \<and> notified s' = notified s \<and>
      shouldObserve s' = shouldObserve s \<and> heap s' = heap s \<and>
      observers s' = observers s \<and> observer_uid s' = observer_uid s)"

definition plain_original :: "descriptor option \<Rightarrow> bool" where
  "plain_original orig = (case orig of Some (Reactive d v b q cs sh c) \<Rightarrow> False | _ \<Rightarrow> True)"

definition closure_value :: "jsval \<Rightarrow> descriptor option \<Rightarrow> jsval" where
  "closure_value val orig =
     (case orig of Some (Accessor g st slot c) \<Rightarrow> if g then slot else val | _ \<Rightarrow> val)"

definition same_value :: "jsval \<Rightarrow> jsval \<Rightarrow> bool" where
  "same_value newVal v = (strict_eq newVal v \<or> (\<not> strict_eq newVal newVal \<and> \<not> strict_eq v v))"

definition custom_called :: "env \<Rightarrow> bool \<Rightarrow> state \<Rightarrow> state" where
  "custom_called en cs s = (if \<not> production en \<and> cs then warn ''customSetter'' s else s)"

text \<open>What no step of \<open>observe\<close> undoes: the class of an object and the Observer it
  carries.\<close>

definition keeps :: "state \<Rightarrow> state \<Rightarrow> bool" where
  "keeps s s' =
     ((\<forall>r. klass (heap s' r) = klass (heap s r)) \<and>
      (\<forall>r b. ob (heap s r) = Some b \<longrightarrow> ob (heap s' r) = Some b))"


section \<open>Concrete states\<close>

text \<open>The state of the modules when they are loaded: both \<open>uid\<close> counters at 0,
  \<open>Dep.target = null\<close>, an empty target stack, no subscriber anywhere.\<close>

definition blank_watcher :: watcher where
  "blank_watcher =
     \<lparr>vm = 0, deep = False, user = False, lazy = False, sync = False, dirty = False,
      active = False, deps = [], newDeps = [], depIds = {}, newDepIds = {},
      cached = Undefined\<rparr>"

text \<open>A fresh \<open>{}\<close>.\<close>

definition blank_object :: jsobj where
  "blank_object =
     \<lparr>klass = PlainObject, props = [], items = [], inherited = object_prototype,
      extensible = True, ob = None, ob_writable = True, ob_configurable = True\<rparr>"

definition init_state :: state where
  "init_state =
     \<lparr>dep_uid = 0, subs = (\<lambda>d. []), dep_target = TNull, targetStack = [],
      watcher_uid = 0, watchers = (\<lambda>w. blank_watcher),
      vms = (\<lambda>v. \<lparr>render_watcher = None, vm_watchers = [], isBeingDestroyed = False\<rparr>),
      queue = [], reports = [], cb_calls = [], notified = [], shouldObserve = True,
      heap = (\<lambda>r. blank_object), observers = (\<lambda>b. \<lparr>ob_value = 0, ob_dep = 0, vmCount = 0\<rparr>),
      observer_uid = 0\<rparr>"

text \<open>An evaluation that reads the given Deps and returns, and one that reads them
  and throws; neither is followed by a deep walk that reaches a Dep.\<close>

definition reading :: "nat list \<Rightarrow> jsval \<Rightarrow> evaluation" where
  "reading ds x = \<lparr>touched = ds, outcome = Return x, traverse = (\<lambda>v. [])\<rparr>"

definition throwing :: "nat list \<Rightarrow> exn \<Rightarrow> evaluation" where
  "throwing ds e = \<lparr>touched = ds, outcome = Throw e, traverse = (\<lambda>v. [])\<rparr>"

text \<open>Watcher 1 of component 0, built by the constructor with the given options on an
  expression that first reads Deps 0 and 1 and yields 1.\<close>

definition one_watcher :: "options option \<Rightarrow> state" where
  "one_watcher opts = snd (new_watcher 0 (reading [0, 1] (Number 1)) opts False init_state)"

definition user_options :: options where
  "user_options = \<lparr>opt_deep = False, opt_user = True, opt_lazy = False, opt_sync = False\<rparr>"

definition quiet_cb :: callback where
  "quiet_cb a b = Return ()"

definition failing_cb :: callback where
  "failing_cb a b = Throw (Thrown ''cb'')"

text \<open>Two watchers of component 0, neither lazy nor synchronous: the second reads
  Dep 0 when it is built, the first only on a later evaluation, so that Dep 0 lists
  them as 2, 1.\<close>

definition two_watchers :: state where
  "two_watchers =
     (let s1 = snd (new_watcher 0 (reading [] Undefined) None False init_state);
          s2 = snd (new_watcher 0 (reading [0] Undefined) None False s1)
      in snd (get (reading [0] Undefined) 1 s2))"

definition demo_update :: updater where
  "demo_update = update (reading [0] Undefined) quiet_cb"

text \<open>An \<open>update()\<close> in which the watcher takes itself off the subscriber list of Dep
  \<open>d\<close>.\<close>

definition leaving :: "nat \<Rightarrow> updater" where
  "leaving d w s = (Return (), removeSub d w s)"

text \<open>The builds below come with a conversion that takes no string and no object
  for a length; no call below assigns one to a \<open>length\<close>.\<close>

definition no_conversion :: "jsval \<Rightarrow> state \<Rightarrow> nat completion" where
  "no_conversion v s = Throw RangeError"

definition production_sync :: env where
  "production_sync =
     \<lparr>production = True, async = False, serverRendering = False, toLength = no_conversion\<rparr>"

definition development_sync :: env where
  "development_sync =
     \<lparr>production = False, async = False, serverRendering = False, toLength = no_conversion\<rparr>"

text \<open>The states these steps go through, written out: a watcher of component 0 with
  no flag set that holds the given Deps, and the state after each of the three
  steps of \<open>two_watchers\<close>.\<close>

definition holding :: "nat list \<Rightarrow> watcher" where
  "holding ds =
     \<lparr>vm = 0, deep = False, user = False, lazy = False, sync = False, dirty = False,
      active = True, deps = ds, newDeps = [], depIds = set ds, newDepIds = {},
      cached = Undefined\<rparr>"

definition after_first :: state where
  "after_first =
     init_state\<lparr>dep_target := TUndefined, watcher_uid := 1,
       watchers := (\<lambda>w. blank_watcher)(1 := holding []),
       vms := (vms init_state)
         (0 := \<lparr>render_watcher = None, vm_watchers = [1], isBeingDestroyed = False\<rparr>)\<rparr>"

definition after_second :: state where
  "after_second =
     init_state\<lparr>subs := (\<lambda>d. [])(0 := [2]), dep_target := TUndefined, watcher_uid := 2,
       watchers := (\<lambda>w. blank_watcher)(1 := holding [], 2 := holding [0]),
       vms := (vms init_state)
         (0 := \<lparr>render_watcher = None, vm_watchers = [1, 2], isBeingDestroyed = False\<rparr>)\<rparr>"

definition after_third :: state where
  "after_third =
     init_state\<lparr>subs := (\<lambda>d. [])(0 := [2, 1]), dep_target := TUndefined, watcher_uid := 2,
       watchers := (\<lambda>w. blank_watcher)(1 := holding [0], 2 := holding [0]),
       vms := (vms init_state)
         (0 := \<lparr>render_watcher = None, vm_watchers = [1, 2], isBeingDestroyed = False\<rparr>)\<rparr>"

definition production_async :: env where
  "production_async =
     \<lparr>production = True, async = True, serverRendering = False, toLength = no_conversion\<rparr>"

text \<open>
  The heap holds \<open>{a: 1}\<close> at reference 0; \<open>observed_object\<close> is the state after
  \<open>observe\<close> of it: Observer 0 with Dep 0, and \<open>a\<close> reactive with Dep 1.
\<close>

definition with_object :: state where
  "with_object =
     init_state\<lparr>heap := (\<lambda>r. blank_object)
       (0 := blank_object\<lparr>props := [(Name ''a'', Data (Number 1) True True)]\<rparr>)\<rparr>"

definition observed_object :: state where
  "observed_object =
     init_state\<lparr>dep_uid := 2, subs := (\<lambda>d. [])(0 := [], 1 := []),
       heap := (\<lambda>r. blank_object)
         (0 := blank_object\<lparr>props := [(Name ''a'', Reactive 1 (Number 1) None None False False True)],
                 ob := Some 0\<rparr>),
       observers := (\<lambda>b. \<lparr>ob_value = 0, ob_dep = 0, vmCount = 0\<rparr>)
         (0 := \<lparr>ob_value = 0, ob_dep = 0, vmCount = 0\<rparr>),
       observer_uid := 1\<rparr>"

text \<open>The same state while the watcher 1 is being evaluated.\<close>

definition watching :: state where
  "watching = observed_object\<lparr>dep_target := TWatcher 1\<rparr>"

text \<open>The heap holds at reference 0 an object whose property \<open>a\<close> is a getter without
  a setter, returning 1; \<open>getter_only\<close> is the state after \<open>defineReactive(obj, 'a')\<close>.\<close>

definition with_getter :: state where
  "with_getter =
     init_state\<lparr>heap := (\<lambda>r. blank_object)
       (0 := blank_object\<lparr>props := [(Name ''a'', Accessor True False (Number 1) True)]\<rparr>)\<rparr>"

definition getter_only :: state where
  "getter_only =
     init_state\<lparr>dep_uid := 1, subs := (\<lambda>d. [])(0 := []),
       heap := (\<lambda>r. blank_object)
         (0 := blank_object\<lparr>props :=
            [(Name ''a'', Reactive 0 Undefined None (Some (Accessor True False (Number 1) True))
                            False False True)]\<rparr>)\<rparr>"

text \<open>The heap holds at reference 0 what \<open>Object.seal({a: 1})\<close> returns: the property
  is writable and not configurable, the object is not extensible.\<close>

definition with_sealed :: state where
  "with_sealed =
     init_state\<lparr>heap := (\<lambda>r. blank_object)
       (0 := blank_object\<lparr>props := [(Name ''a'', Data (Number 1) True False)],
               extensible := False\<rparr>)\<rparr>"

text \<open>
  \<open>sealed_object\<close> is \<open>observed_object\<close> after \<open>Object.seal\<close> of its object: \<open>a\<close> is the
  reactive property it was and \<open>__ob__\<close> the Observer, both no longer configurable,
  and the object is not extensible. \<open>sealed_watching\<close> is that state while the
  watcher 1 is being evaluated.
\<close>

definition sealed_object :: state where
  "sealed_object =
     observed_object\<lparr>heap := (heap observed_object)
       (0 := (heap observed_object 0)
          \<lparr>props := [(Name ''a'', Reactive 1 (Number 1) None None False False False)],
           extensible := False, ob_configurable := False\<rparr>)\<rparr>"

definition sealed_watching :: state where
  "sealed_watching = sealed_object\<lparr>dep_target := TWatcher 1\<rparr>"

text \<open>
  The heap holds \<open>{toString: 1}\<close> at reference 0; \<open>observed_named\<close> is the state after
  \<open>observe\<close> of it: Observer 0 with Dep 0, and \<open>toString\<close> reactive with Dep 1.
\<close>

definition with_named :: state where
  "with_named =
     init_state\<lparr>heap := (\<lambda>r. blank_object)
       (0 := blank_object\<lparr>props := [(Name ''toString'', Data (Number 1) True True)]\<rparr>)\<rparr>"

definition observed_named :: state where
  "observed_named =
     init_state\<lparr>dep_uid := 2, subs := (\<lambda>d. [])(0 := [], 1 := []),
       heap := (\<lambda>r. blank_object)
         (0 := blank_object
            \<lparr>props := [(Name ''toString'', Reactive 1 (Number 1) None None False False True)],
             ob := Some 0\<rparr>),
       observers := (\<lambda>b. \<lparr>ob_value = 0, ob_dep = 0, vmCount = 0\<rparr>)
         (0 := \<lparr>ob_value = 0, ob_dep = 0, vmCount = 0\<rparr>),
       observer_uid := 1\<rparr>"


text \<open>The heap holds the array \<open>[1, 2]\<close> at reference 0; \<open>observed_array\<close> is the state
  after \<open>observe\<close> of it: Observer 0 with Dep 0.\<close>

definition with_array :: state where
  "with_array =
     init_state\<lparr>heap := (\<lambda>r. blank_object)
       (0 := blank_object\<lparr>klass := ArrayObject, items := [Number 1, Number 2]\<rparr>)\<rparr>"

definition observed_array :: state where
  "observed_array =
     init_state\<lparr>dep_uid := 1, subs := (\<lambda>d. [])(0 := []),
       heap := (\<lambda>r. blank_object)
         (0 := blank_object\<lparr>klass := ArrayObject, items := [Number 1, Number 2], ob := Some 0\<rparr>),
       observers := (\<lambda>b. \<lparr>ob_value = 0, ob_dep = 0, vmCount = 0\<rparr>)
         (0 := \<lparr>ob_value = 0, ob_dep = 0, vmCount = 0\<rparr>),
       observer_uid := 1\<rparr>"

definition no_update :: updater where
  "no_update w s = (Return (), s)"

section \<open>Lemmas on the watcher and the Dep\<close>

lemma remove_other_count: "x \<noteq> w \<Longrightarrow> count_list (remove xs w) x = count_list xs x"
  by (induction xs) (auto simp: remove_def)

lemma remove_count_le: "count_list (remove xs w) x \<le> count_list xs x"
  by (induction xs) (auto simp: remove_def)

lemma remove_once_gone: "count_list xs w \<le> 1 \<Longrightarrow> w \<notin> set (remove xs w)"
  by (induction xs) (auto simp: remove_def count_list_0_iff split: if_splits)

lemma remove_absent: "w \<notin> set xs \<Longrightarrow> remove xs w = xs"
  by (simp add: remove_def remove1_idem)

lemma remove_set_other: "x \<noteq> w \<Longrightarrow> x \<in> set (remove xs w) \<longleftrightarrow> x \<in> set xs"
  by (simp add: remove_def)

lemma remove_subset: "x \<in> set (remove xs w) \<Longrightarrow> x \<in> set xs"
  using set_remove1_subset[of w xs] by (auto simp: remove_def)

lemma teardown_loop_frame:
  "watchers (teardown_loop w ds s) = watchers s"
  "vms (teardown_loop w ds s) = vms s"
  "dep_target (teardown_loop w ds s) = dep_target s"
  "targetStack (teardown_loop w ds s) = targetStack s"
  "reports (teardown_loop w ds s) = reports s"
  "queue (teardown_loop w ds s) = queue s"
  "cb_calls (teardown_loop w ds s) = cb_calls s"
  "dep_uid (teardown_loop w ds s) = dep_uid s"
  "watcher_uid (teardown_loop w ds s) = watcher_uid s"
  by (induction ds arbitrary: s; simp add: removeSub_def)+

lemma teardown_loop_count_le:
  "count_list (subs (teardown_loop w ds s) d) x \<le> count_list (subs s d) x"
proof (induction ds arbitrary: s)
  case Nil
  then show ?case by simp
next
  case (Cons a ds)
  have "count_list (subs (removeSub a w s) d) x \<le> count_list (subs s d) x"
    by (simp add: removeSub_def remove_count_le)
  with Cons[of "removeSub a w s"] show ?case by simp
qed

lemma teardown_loop_gone:
  "d \<in> set ds \<Longrightarrow> count_list (subs s d) w \<le> 1 \<Longrightarrow> w \<notin> set (subs (teardown_loop w ds s) d)"
proof (induction ds arbitrary: s)
  case Nil
  then show ?case by simp
next
  case (Cons a ds)
  show ?case
  proof (cases "a = d")
    case True
    have "w \<notin> set (subs (removeSub a w s) d)"
      using Cons.prems(2) True by (simp add: removeSub_def remove_once_gone)
    then have "count_list (subs (removeSub a w s) d) w = 0"
      by (simp add: count_list_0_iff)
    then have "count_list (subs (teardown_loop w ds (removeSub a w s)) d) w = 0"
      using teardown_loop_count_le[of w ds "removeSub a w s" d w] by simp
    then show ?thesis by (simp add: count_list_0_iff)
  next
    case False
    then have "d \<in> set ds" using Cons.prems(1) by simp
    moreover have "count_list (subs (removeSub a w s) d) w \<le> 1"
      using Cons.prems(2) False by (simp add: removeSub_def)
    ultimately show ?thesis using Cons.IH[of "removeSub a w s"] by simp
  qed
qed

lemma teardown_loop_other:
  "x \<noteq> w \<Longrightarrow> count_list (subs (teardown_loop w ds s) d) x = count_list (subs s d) x"
  by (induction ds arbitrary: s) (auto simp: removeSub_def remove_other_count)

lemma teardown_inactive: "\<not> active (watchers (teardown w s) w)"
  by (simp add: teardown_def upd_watcher_def Let_def)

lemma addDep_frame:
  "dep_target (addDep w d s) = dep_target s"
  "targetStack (addDep w d s) = targetStack s"
  "reports (addDep w d s) = reports s"
  "vms (addDep w d s) = vms s"
  "queue (addDep w d s) = queue s"
  "cb_calls (addDep w d s) = cb_calls s"
  "dep_uid (addDep w d s) = dep_uid s"
  "watcher_uid (addDep w d s) = watcher_uid s"
  by (simp_all add: addDep_def upd_watcher_def addSub_def Let_def)

lemma addDep_watcher_other:
  "x \<noteq> w \<Longrightarrow> watchers (addDep w d s) x = watchers s x"
  by (simp add: addDep_def upd_watcher_def addSub_def Let_def)

lemma addDep_watcher_fields:
  "vm (watchers (addDep w d s) x) = vm (watchers s x)"
  "deep (watchers (addDep w d s) x) = deep (watchers s x)"
  "user (watchers (addDep w d s) x) = user (watchers s x)"
  "lazy (watchers (addDep w d s) x) = lazy (watchers s x)"
  "sync (watchers (addDep w d s) x) = sync (watchers s x)"
  "dirty (watchers (addDep w d s) x) = dirty (watchers s x)"
  "active (watchers (addDep w d s) x) = active (watchers s x)"
  "cached (watchers (addDep w d s) x) = cached (watchers s x)"
  "deps (watchers (addDep w d s) x) = deps (watchers s x)"
  "depIds (watchers (addDep w d s) x) = depIds (watchers s x)"
  by (simp_all add: addDep_def upd_watcher_def addSub_def Let_def)

lemma addDep_newDepIds:
  "newDepIds (watchers (addDep w d s) w) = insert d (newDepIds (watchers s w))"
  by (auto simp: addDep_def upd_watcher_def addSub_def Let_def)

lemma addDep_subs_other:
  "x \<noteq> w \<Longrightarrow> count_list (subs (addDep w d s) e) x = count_list (subs s e) x"
  by (simp add: addDep_def upd_watcher_def addSub_def Let_def)

lemma addDep_collecting:
  assumes "collecting s w"
  shows "collecting (addDep w d s) w"
proof (cases "d \<in> newDepIds (watchers s w)")
  case True
  then show ?thesis using assms by (simp add: addDep_def)
next
  case False
  note notnew = this
  show ?thesis
  proof (cases "d \<in> depIds (watchers s w)")
    case True
    then show ?thesis using assms notnew
      by (auto simp: collecting_def addDep_def upd_watcher_def Let_def subscribed_once_def)
  next
    case False
    then have "w \<notin> set (subs s d)" using assms notnew by (auto simp: collecting_def)
    then have c0: "count_list (subs s d) w = 0" by (simp add: count_list_0_iff)
    show ?thesis using assms notnew False c0
      by (auto simp: collecting_def addDep_def upd_watcher_def addSub_def Let_def
            subscribed_once_def)
  qed
qed

lemma depend_all_target:
  "dep_target s = TWatcher w \<Longrightarrow> dep_target (depend_all ds s) = TWatcher w"
  by (induction ds arbitrary: s) (simp_all add: depend_def addDep_frame)

lemma depend_all_frame:
  assumes "dep_target s = TWatcher w"
  shows "targetStack (depend_all ds s) = targetStack s"
    and "reports (depend_all ds s) = reports s"
    and "vms (depend_all ds s) = vms s"
    and "queue (depend_all ds s) = queue s"
    and "cb_calls (depend_all ds s) = cb_calls s"
    and "dep_uid (depend_all ds s) = dep_uid s"
    and "watcher_uid (depend_all ds s) = watcher_uid s"
  using assms by (induction ds arbitrary: s; simp add: depend_def addDep_frame)+

lemma depend_all_watcher_fields:
  assumes "dep_target s = TWatcher w"
  shows "vm (watchers (depend_all ds s) x) = vm (watchers s x)"
    and "deep (watchers (depend_all ds s) x) = deep (watchers s x)"
    and "user (watchers (depend_all ds s) x) = user (watchers s x)"
    and "lazy (watchers (depend_all ds s) x) = lazy (watchers s x)"
    and "sync (watchers (depend_all ds s) x) = sync (watchers s x)"
    and "dirty (watchers (depend_all ds s) x) = dirty (watchers s x)"
    and "active (watchers (depend_all ds s) x) = active (watchers s x)"
    and "cached (watchers (depend_all ds s) x) = cached (watchers s x)"
    and "deps (watchers (depend_all ds s) x) = deps (watchers s x)"
    and "depIds (watchers (depend_all ds s) x) = depIds (watchers s x)"
  using assms by (induction ds arbitrary: s; simp add: depend_def addDep_frame addDep_watcher_fields)+

lemma depend_all_watcher_other:
  "dep_target s = TWatcher w \<Longrightarrow> x \<noteq> w \<Longrightarrow> watchers (depend_all ds s) x = watchers s x"
  by (induction ds arbitrary: s) (simp_all add: depend_def addDep_frame addDep_watcher_other)

lemma depend_all_subs_other:
  "dep_target s = TWatcher w \<Longrightarrow> x \<noteq> w \<Longrightarrow>
   count_list (subs (depend_all ds s) e) x = count_list (subs s e) x"
  by (induction ds arbitrary: s) (simp_all add: depend_def addDep_frame addDep_subs_other)

lemma depend_all_newDepIds:
  "dep_target s = TWatcher w \<Longrightarrow>
   newDepIds (watchers (depend_all ds s) w) = newDepIds (watchers s w) \<union> set ds"
  by (induction ds arbitrary: s) (simp_all add: depend_def addDep_frame addDep_newDepIds)

lemma depend_all_collecting:
  "collecting s w \<Longrightarrow> collecting (depend_all ds s) w"
proof (induction ds arbitrary: s)
  case Nil
  then show ?case by simp
next
  case (Cons d ds)
  from Cons.prems have t: "dep_target s = TWatcher w" by (simp add: collecting_def)
  have "collecting (addDep w d s) w" using Cons.prems by (rule addDep_collecting)
  then show ?case using Cons.IH t by (simp add: depend_def)
qed

lemma cleanup_loop_frame:
  "watchers (cleanup_loop w ds s) = watchers s"
  "vms (cleanup_loop w ds s) = vms s"
  "dep_target (cleanup_loop w ds s) = dep_target s"
  "targetStack (cleanup_loop w ds s) = targetStack s"
  "reports (cleanup_loop w ds s) = reports s"
  "queue (cleanup_loop w ds s) = queue s"
  "cb_calls (cleanup_loop w ds s) = cb_calls s"
  "dep_uid (cleanup_loop w ds s) = dep_uid s"
  "watcher_uid (cleanup_loop w ds s) = watcher_uid s"
  by (induction ds arbitrary: s; simp add: removeSub_def)+

lemma cleanup_loop_count_le:
  "count_list (subs (cleanup_loop w ds s) d) x \<le> count_list (subs s d) x"
proof (induction ds arbitrary: s)
  case Nil
  then show ?case by simp
next
  case (Cons a ds)
  let ?s1 = "if a \<notin> newDepIds (watchers s w) then removeSub a w s else s"
  have "count_list (subs (cleanup_loop w ds ?s1) d) x \<le> count_list (subs ?s1 d) x"
    by (rule Cons)
  also have "\<dots> \<le> count_list (subs s d) x"
    by (simp add: removeSub_def remove_count_le)
  finally show ?case by simp
qed

lemma cleanup_loop_other:
  "x \<noteq> w \<Longrightarrow> count_list (subs (cleanup_loop w ds s) d) x = count_list (subs s d) x"
  by (induction ds arbitrary: s) (auto simp: removeSub_def remove_other_count)

lemma cleanup_loop_kept:
  "d \<in> newDepIds (watchers s w) \<or> d \<notin> set ds \<Longrightarrow> subs (cleanup_loop w ds s) d = subs s d"
  by (induction ds arbitrary: s) (auto simp: removeSub_def)

lemma cleanup_loop_gone:
  "d \<in> set ds \<Longrightarrow> d \<notin> newDepIds (watchers s w) \<Longrightarrow> count_list (subs s d) w \<le> 1 \<Longrightarrow>
   w \<notin> set (subs (cleanup_loop w ds s) d)"
proof (induction ds arbitrary: s)
  case Nil
  then show ?case by simp
next
  case (Cons a ds)
  let ?s1 = "if a \<notin> newDepIds (watchers s w) then removeSub a w s else s"
  have w1: "watchers ?s1 = watchers s" by (simp add: removeSub_def)
  show ?case
  proof (cases "a = d")
    case True
    have "w \<notin> set (subs ?s1 d)"
      using Cons.prems True by (simp add: removeSub_def remove_once_gone)
    then have "count_list (subs ?s1 d) w = 0"
      by (simp add: count_list_0_iff)
    then have "count_list (subs (cleanup_loop w ds ?s1) d) w = 0"
      using cleanup_loop_count_le[of w ds ?s1 d w] by simp
    then show ?thesis by (simp add: count_list_0_iff)
  next
    case False
    then have "d \<in> set ds" using Cons.prems(1) by simp
    moreover have "count_list (subs ?s1 d) w \<le> 1"
      using Cons.prems(3) False by (simp add: removeSub_def)
    moreover have "d \<notin> newDepIds (watchers ?s1 w)" using Cons.prems(2) w1 by simp
    ultimately show ?thesis using Cons.IH[of ?s1] by simp
  qed
qed

lemma cleanupDeps_frame:
  "vms (cleanupDeps w s) = vms s"
  "dep_target (cleanupDeps w s) = dep_target s"
  "targetStack (cleanupDeps w s) = targetStack s"
  "reports (cleanupDeps w s) = reports s"
  "queue (cleanupDeps w s) = queue s"
  "cb_calls (cleanupDeps w s) = cb_calls s"
  "dep_uid (cleanupDeps w s) = dep_uid s"
  "watcher_uid (cleanupDeps w s) = watcher_uid s"
  by (simp_all add: cleanupDeps_def upd_watcher_def Let_def cleanup_loop_frame)

lemma cleanupDeps_watcher:
  "watchers (cleanupDeps w s) =
     (watchers s)(w := (watchers s w)\<lparr>depIds := newDepIds (watchers s w), newDepIds := {},
         deps := newDeps (watchers s w), newDeps := []\<rparr>)"
  by (simp add: cleanupDeps_def upd_watcher_def Let_def cleanup_loop_frame)

lemma cleanupDeps_subs:
  "subs (cleanupDeps w s) = subs (cleanup_loop w (rev (deps (watchers s w))) s)"
  by (simp add: cleanupDeps_def upd_watcher_def Let_def)

lemma cleanupDeps_settled:
  assumes "set (newDeps (watchers s w)) = newDepIds (watchers s w)"
    and "set (deps (watchers s w)) = depIds (watchers s w)"
    and "\<forall>d. w \<in> set (subs s d) \<longrightarrow> d \<in> depIds (watchers s w) \<union> newDepIds (watchers s w)"
    and "subscribed_once s w"
  shows "settled (cleanupDeps w s) w"
proof -
  let ?ds = "rev (deps (watchers s w))"
  have once: "subscribed_once (cleanupDeps w s) w"
    unfolding subscribed_once_def cleanupDeps_subs
  proof
    fix d
    have "count_list (subs (cleanup_loop w ?ds s) d) w \<le> count_list (subs s d) w"
      by (rule cleanup_loop_count_le)
    also have "\<dots> \<le> 1" using assms(4) by (simp add: subscribed_once_def)
    finally show "count_list (subs (cleanup_loop w ?ds s) d) w \<le> 1" .
  qed
  have stale: "w \<in> set (subs (cleanupDeps w s) d) \<Longrightarrow> d \<in> newDepIds (watchers s w)" for d
  proof (rule ccontr)
    assume mem: "w \<in> set (subs (cleanupDeps w s) d)" and notnew: "d \<notin> newDepIds (watchers s w)"
    show False
    proof (cases "d \<in> set ?ds")
      case True
      have "count_list (subs s d) w \<le> 1" using assms(4) by (simp add: subscribed_once_def)
      then have "w \<notin> set (subs (cleanup_loop w ?ds s) d)"
        using True notnew by (intro cleanup_loop_gone)
      then show False using mem by (simp add: cleanupDeps_subs)
    next
      case False
      then have "subs (cleanup_loop w ?ds s) d = subs s d" by (simp add: cleanup_loop_kept)
      then have "w \<in> set (subs s d)" using mem by (simp add: cleanupDeps_subs)
      then have "d \<in> depIds (watchers s w) \<union> newDepIds (watchers s w)" using assms(3) by blast
      then show False using False notnew assms(2) by auto
    qed
  qed
  show ?thesis
    unfolding settled_def
    using once stale assms(1) by (simp add: cleanupDeps_watcher)
qed

lemma pushTarget_simps:
  "dep_target (pushTarget t s) = t"
  "targetStack (pushTarget t s) = targetStack s @ [t]"
  "watchers (pushTarget t s) = watchers s"
  "subs (pushTarget t s) = subs s"
  "reports (pushTarget t s) = reports s"
  "vms (pushTarget t s) = vms s"
  "queue (pushTarget t s) = queue s"
  "cb_calls (pushTarget t s) = cb_calls s"
  by (simp_all add: pushTarget_def)

lemma popTarget_simps:
  "dep_target (popTarget s) = stack_top (butlast (targetStack s))"
  "targetStack (popTarget s) = butlast (targetStack s)"
  "watchers (popTarget s) = watchers s"
  "subs (popTarget s) = subs s"
  "reports (popTarget s) = reports s"
  "vms (popTarget s) = vms s"
  "queue (popTarget s) = queue s"
  "cb_calls (popTarget s) = cb_calls s"
  by (simp_all add: popTarget_def Let_def)

lemma handleError_simps:
  "dep_target (handleError e v i s) = dep_target s"
  "targetStack (handleError e v i s) = targetStack s"
  "watchers (handleError e v i s) = watchers s"
  "subs (handleError e v i s) = subs s"
  "reports (handleError e v i s) = reports s @ [Handled e v i]"
  "vms (handleError e v i s) = vms s"
  "queue (handleError e v i s) = queue s"
  "cb_calls (handleError e v i s) = cb_calls s"
  by (simp_all add: handleError_def)

lemma get_eq:
  "get ev w s = (get_completion ev w s, cleanupDeps w (popTarget (collected ev w s)))"
proof -
  let ?s1 = "pushTarget (TWatcher w) s"
  have t1: "dep_target ?s1 = TWatcher w" by (simp add: pushTarget_simps)
  note f = depend_all_watcher_fields[OF t1] pushTarget_simps handleError_simps
  show ?thesis
  proof (cases "outcome ev")
    case (Return x)
    then show ?thesis
      by (simp add: get_def collected_def get_completion_def result_value_def Let_def f)
  next
    case (Throw e)
    then show ?thesis
      by (cases "user (watchers s w)")
         (simp_all add: get_def collected_def get_completion_def result_value_def Let_def f)
  qed
qed

lemma collected_target: "dep_target (collected ev w s) = TWatcher w"
  by (cases "outcome ev")
     (simp_all add: collected_def Let_def depend_all_target pushTarget_simps handleError_simps)

lemma collected_stack: "targetStack (collected ev w s) = targetStack s @ [TWatcher w]"
  by (cases "outcome ev")
     (simp_all add: collected_def Let_def depend_all_target depend_all_frame
        pushTarget_simps handleError_simps)

lemma collected_reports: "reports (collected ev w s) = reports s @ get_reports ev w s"
  by (cases "outcome ev")
     (simp_all add: collected_def get_reports_def Let_def depend_all_target depend_all_frame
        pushTarget_simps handleError_simps)

lemma collected_frame:
  "vms (collected ev w s) = vms s"
  "queue (collected ev w s) = queue s"
  "cb_calls (collected ev w s) = cb_calls s"
  by (cases "outcome ev";
      simp add: collected_def Let_def depend_all_target depend_all_frame
        pushTarget_simps handleError_simps)+

lemma collected_watcher_fields:
  "vm (watchers (collected ev w s) x) = vm (watchers s x)"
  "deep (watchers (collected ev w s) x) = deep (watchers s x)"
  "user (watchers (collected ev w s) x) = user (watchers s x)"
  "lazy (watchers (collected ev w s) x) = lazy (watchers s x)"
  "sync (watchers (collected ev w s) x) = sync (watchers s x)"
  "dirty (watchers (collected ev w s) x) = dirty (watchers s x)"
  "active (watchers (collected ev w s) x) = active (watchers s x)"
  "cached (watchers (collected ev w s) x) = cached (watchers s x)"
  "deps (watchers (collected ev w s) x) = deps (watchers s x)"
  "depIds (watchers (collected ev w s) x) = depIds (watchers s x)"
  by (cases "outcome ev";
      simp add: collected_def Let_def depend_all_target depend_all_watcher_fields
        pushTarget_simps handleError_simps)+

lemma collected_watcher_other:
  "x \<noteq> w \<Longrightarrow> watchers (collected ev w s) x = watchers s x"
  by (cases "outcome ev")
     (simp_all add: collected_def Let_def depend_all_target depend_all_watcher_other
        pushTarget_simps handleError_simps)

lemma collected_subs_other:
  "x \<noteq> w \<Longrightarrow> count_list (subs (collected ev w s) d) x = count_list (subs s d) x"
  by (cases "outcome ev")
     (simp_all add: collected_def Let_def depend_all_target depend_all_subs_other
        pushTarget_simps handleError_simps)

lemma handleError_collecting: "collecting s w \<Longrightarrow> collecting (handleError e v i s) w"
  by (simp add: collecting_def handleError_simps subscribed_once_def)

lemma pushTarget_collecting: "settled s w \<Longrightarrow> collecting (pushTarget (TWatcher w) s) w"
  by (simp add: collecting_def settled_def pushTarget_simps subscribed_once_def)

lemma collected_collecting:
  assumes "settled s w"
  shows "collecting (collected ev w s) w"
proof -
  let ?s2 = "depend_all (touched ev) (pushTarget (TWatcher w) s)"
  have c2: "collecting ?s2 w"
    using assms by (intro depend_all_collecting pushTarget_collecting)
  show ?thesis
    by (cases "outcome ev")
       (simp_all add: collected_def Let_def c2 depend_all_collecting handleError_collecting)
qed

lemma collected_newDepIds:
  assumes "newDepIds (watchers s w) = {}"
  shows "newDepIds (watchers (collected ev w s) w) = set (reached ev w s)"
proof -
  let ?s2 = "depend_all (touched ev) (pushTarget (TWatcher w) s)"
  have n2: "newDepIds (watchers ?s2 w) = set (touched ev)"
    using assms by (simp add: depend_all_newDepIds pushTarget_simps)
  have t2: "dep_target ?s2 = TWatcher w"
    by (simp add: depend_all_target pushTarget_simps)
  show ?thesis
    by (cases "outcome ev")
       (simp_all add: collected_def reached_def Let_def n2 t2 depend_all_newDepIds
          handleError_simps)
qed

lemma get_settled:
  assumes "settled s w"
  shows "settled (snd (get ev w s)) w"
proof -
  have c: "collecting (popTarget (collected ev w s)) w \<or> True" by simp
  have col: "collecting (collected ev w s) w" using assms by (rule collected_collecting)
  show ?thesis
    unfolding get_eq snd_conv
    using col
    by (intro cleanupDeps_settled)
       (simp_all add: collecting_def popTarget_simps subscribed_once_def)
qed

lemma get_depIds:
  assumes "newDepIds (watchers s w) = {}"
  shows "depIds (watchers (snd (get ev w s)) w) = set (reached ev w s)"
  using collected_newDepIds[OF assms, of ev]
  by (simp add: get_eq cleanupDeps_watcher popTarget_simps)

lemma get_stack:
  "targetStack (snd (get ev w s)) = targetStack s"
  "dep_target (snd (get ev w s)) = stack_top (targetStack s)"
  by (simp_all add: get_eq cleanupDeps_frame popTarget_simps collected_stack)

lemma get_reports_eq:
  "reports (snd (get ev w s)) = reports s @ get_reports ev w s"
  by (simp add: get_eq cleanupDeps_frame popTarget_simps collected_reports)

lemma get_frame:
  "vms (snd (get ev w s)) = vms s"
  "queue (snd (get ev w s)) = queue s"
  "cb_calls (snd (get ev w s)) = cb_calls s"
  by (simp_all add: get_eq cleanupDeps_frame popTarget_simps collected_frame)

lemma get_watcher_fields:
  "vm (watchers (snd (get ev w s)) x) = vm (watchers s x)"
  "deep (watchers (snd (get ev w s)) x) = deep (watchers s x)"
  "user (watchers (snd (get ev w s)) x) = user (watchers s x)"
  "lazy (watchers (snd (get ev w s)) x) = lazy (watchers s x)"
  "sync (watchers (snd (get ev w s)) x) = sync (watchers s x)"
  "dirty (watchers (snd (get ev w s)) x) = dirty (watchers s x)"
  "active (watchers (snd (get ev w s)) x) = active (watchers s x)"
  "cached (watchers (snd (get ev w s)) x) = cached (watchers s x)"
  by (simp_all add: get_eq cleanupDeps_watcher popTarget_simps collected_watcher_fields)

lemma get_watcher_other:
  "x \<noteq> w \<Longrightarrow> watchers (snd (get ev w s)) x = watchers s x"
  by (simp add: get_eq cleanupDeps_watcher popTarget_simps collected_watcher_other)

lemma get_subs_other:
  "x \<noteq> w \<Longrightarrow> count_list (subs (snd (get ev w s)) d) x = count_list (subs s d) x"
  by (simp add: get_eq cleanupDeps_subs cleanup_loop_other popTarget_simps collected_subs_other)

lemma get_fst: "fst (get ev w s) = get_completion ev w s"
  by (simp add: get_eq)

lemma get_depIds_gen:
  "depIds (watchers (snd (get ev w s)) w) = newDepIds (watchers s w) \<union> set (reached ev w s)"
proof -
  let ?s2 = "depend_all (touched ev) (pushTarget (TWatcher w) s)"
  have n2: "newDepIds (watchers ?s2 w) = newDepIds (watchers s w) \<union> set (touched ev)"
    by (simp add: depend_all_newDepIds pushTarget_simps)
  have t2: "dep_target ?s2 = TWatcher w"
    by (simp add: depend_all_target pushTarget_simps)
  have "newDepIds (watchers (collected ev w s) w) = newDepIds (watchers s w) \<union> set (reached ev w s)"
    by (cases "outcome ev")
       (auto simp add: collected_def reached_def Let_def n2 t2 depend_all_newDepIds
          handleError_simps)
  then show ?thesis
    by (simp add: get_eq cleanupDeps_watcher popTarget_simps)
qed

lemma get_new_generation:
  "newDeps (watchers (snd (get ev w s)) w) = []"
  "newDepIds (watchers (snd (get ev w s)) w) = {}"
  by (simp_all add: get_eq cleanupDeps_watcher)

lemma run_inactive: "\<not> active (watchers s w) \<Longrightarrow> run ev cb w s = (Return (), s)"
  by (simp add: run_def)

lemma run_get_throws:
  assumes "active (watchers s w)" "fst (get ev w s) = Throw e"
  shows "run ev cb w s = (Throw e, snd (get ev w s))"
  using assms by (cases "get ev w s") (simp add: run_def)

lemma run_quiet:
  assumes "active (watchers s w)" "fst (get ev w s) = Return val" "\<not> fires val w s"
  shows "run ev cb w s = (Return (), snd (get ev w s))"
proof -
  obtain s1 where g: "get ev w s = (Return val, s1)" using assms(2) by (cases "get ev w s") simp
  have "cached (watchers s1 w) = cached (watchers s w)" "deep (watchers s1 w) = deep (watchers s w)"
    using get_watcher_fields[of ev w s w] g by simp_all
  then show ?thesis using assms g by (simp add: run_def fires_def)
qed

lemma run_fires:
  assumes "active (watchers s w)" "fst (get ev w s) = Return val" "fires val w s"
  shows "cb_calls (snd (run ev cb w s)) = cb_calls s @ [(w, val, cached (watchers s w))]"
    and "cached (watchers (snd (run ev cb w s)) w) = val"
    and "fst (run ev cb w s) =
           (case cb val (cached (watchers s w)) of
              Return u \<Rightarrow> Return ()
            | Throw e \<Rightarrow> if user (watchers s w) then Return () else Throw e)"
    and "reports (snd (run ev cb w s)) =
           reports (snd (get ev w s)) @
           (case cb val (cached (watchers s w)) of
              Return u \<Rightarrow> []
            | Throw e \<Rightarrow> if user (watchers s w)
                         then [Handled e (vm (watchers s w)) ''callback for watcher''] else [])"
proof -
  obtain s1 where g: "get ev w s = (Return val, s1)" using assms(2) by (cases "get ev w s") simp
  have f: "cached (watchers s1 w) = cached (watchers s w)" "deep (watchers s1 w) = deep (watchers s w)"
     "user (watchers s1 w) = user (watchers s w)" "vm (watchers s1 w) = vm (watchers s w)"
     "cb_calls s1 = cb_calls s"
    using get_watcher_fields[of ev w s w] get_frame[of ev w s] g by simp_all
  have fire: "\<not> strict_eq val (cached (watchers s w)) \<or> isObject val \<or> deep (watchers s w)"
    using assms(3) by (simp add: fires_def)
  show "cb_calls (snd (run ev cb w s)) = cb_calls s @ [(w, val, cached (watchers s w))]"
    using assms(1) g f fire
    by (cases "cb val (cached (watchers s w))")
       (auto simp add: run_def Let_def call_cb_def upd_watcher_def handleError_def)
  show "cached (watchers (snd (run ev cb w s)) w) = val"
    using assms(1) g f fire
    by (cases "cb val (cached (watchers s w))")
       (auto simp add: run_def Let_def call_cb_def upd_watcher_def handleError_def)
  show "fst (run ev cb w s) =
           (case cb val (cached (watchers s w)) of
              Return u \<Rightarrow> Return ()
            | Throw e \<Rightarrow> if user (watchers s w) then Return () else Throw e)"
    using assms(1) g f fire
    by (cases "cb val (cached (watchers s w))")
       (auto simp add: run_def Let_def call_cb_def upd_watcher_def handleError_def)
  show "reports (snd (run ev cb w s)) =
           reports (snd (get ev w s)) @
           (case cb val (cached (watchers s w)) of
              Return u \<Rightarrow> []
            | Throw e \<Rightarrow> if user (watchers s w)
                         then [Handled e (vm (watchers s w)) ''callback for watcher''] else [])"
    using assms(1) g f fire
    by (cases "cb val (cached (watchers s w))")
       (auto simp add: run_def Let_def call_cb_def upd_watcher_def handleError_def)
qed

lemma dispatch_prefix: "\<exists>rest. ws = fst (dispatch upd ws s) @ rest"
proof (induction ws arbitrary: s)
  case Nil
  then show ?case by simp
next
  case (Cons w ws)
  obtain r s1 where u: "upd w s = (r, s1)" by (cases "upd w s")
  show ?case
  proof (cases r)
    case (Return x)
    obtain called r2 s2 where d: "dispatch upd ws s1 = (called, r2, s2)"
      by (cases "dispatch upd ws s1")
    from Cons[of s1] d obtain rest where "ws = called @ rest" by auto
    then show ?thesis using u Return d by simp
  next
    case (Throw e)
    then show ?thesis using u by simp
  qed
qed

lemma dispatch_all:
  "fst (snd (dispatch upd ws s)) = Return () \<Longrightarrow> fst (dispatch upd ws s) = ws"
proof (induction ws arbitrary: s)
  case Nil
  then show ?case by simp
next
  case (Cons w ws)
  obtain r s1 where u: "upd w s = (r, s1)" by (cases "upd w s")
  show ?case
  proof (cases r)
    case (Return x)
    obtain called r2 s2 where d: "dispatch upd ws s1 = (called, r2, s2)"
      by (cases "dispatch upd ws s1")
    from Cons.prems u Return d have "r2 = Return ()" by simp
    with Cons.IH[of s1] d have "called = ws" by simp
    then show ?thesis using u Return d by simp
  next
    case (Throw e)
    then show ?thesis using u Cons.prems by simp
  qed
qed

lemma dispatch_returns:
  "\<forall>w s. fst (upd w s) = Return () \<Longrightarrow> fst (snd (dispatch upd ws s)) = Return ()"
proof (induction ws arbitrary: s)
  case Nil
  then show ?case by simp
next
  case (Cons w ws)
  obtain r s1 where u: "upd w s = (r, s1)" by (cases "upd w s")
  with Cons.prems have r: "r = Return ()" by (metis fst_conv)
  obtain called r2 s2 where d: "dispatch upd ws s1 = (called, r2, s2)"
    by (cases "dispatch upd ws s1")
  from Cons.IH[OF Cons.prems, of s1] d have "r2 = Return ()" by simp
  then show ?case using u r d by simp
qed

lemma dispatch_subset: "set (fst (dispatch upd ws s)) \<subseteq> set ws"
proof -
  obtain rest where "ws = fst (dispatch upd ws s) @ rest" using dispatch_prefix by blast
  then have "set ws = set (fst (dispatch upd ws s)) \<union> set rest" by (metis set_append)
  then show ?thesis by blast
qed

lemma sorted_prefix: "sorted (xs @ ys) \<Longrightarrow> sorted xs"
  by (simp add: sorted_append)

lemma notify_subset: "set (fst (notify en upd d s)) \<subseteq> set (subs s d)"
  by (simp add: notify_def Let_def) (metis dispatch_subset set_sort)

section \<open>The constructor establishes the invariant\<close>

lemma upd_cached_settled:
  "settled s w \<Longrightarrow> settled (upd_watcher w (\<lambda>x. x\<lparr>cached := v\<rparr>) s) w"
  by (simp add: settled_def upd_watcher_def subscribed_once_def)

lemma new_watcher_settled:
  assumes "\<forall>d. watcher_uid s + 1 \<notin> set (subs s d)"
  shows "settled (snd (new_watcher v ev opts r s)) (watcher_uid s + 1)"
proof -
  let ?w = "watcher_uid s + 1"
  let ?lz = "case opts of Some x \<Rightarrow> opt_lazy x | None \<Rightarrow> False"
  let ?s1 = "if r then s\<lparr>vms := (vms s)(v := (vms s v)\<lparr>render_watcher := Some ?w\<rparr>)\<rparr> else s"
  let ?s2 = "?s1\<lparr>vms := (vms ?s1)(v := (vms ?s1 v)\<lparr>vm_watchers := vm_watchers (vms ?s1 v) @ [?w]\<rparr>)\<rparr>"
  let ?me = "\<lparr>vm = v,
                  deep = (case opts of Some x \<Rightarrow> opt_deep x | None \<Rightarrow> False),
                  user = (case opts of Some x \<Rightarrow> opt_user x | None \<Rightarrow> False),
                  lazy = ?lz,
                  sync = (case opts of Some x \<Rightarrow> opt_sync x | None \<Rightarrow> False),
                  dirty = ?lz, active = True, deps = [], newDeps = [],
                  depIds = {}, newDepIds = {}, cached = Undefined\<rparr>"
  let ?s3 = "?s2\<lparr>watcher_uid := ?w, watchers := (watchers ?s2)(?w := ?me)\<rparr>"
  have s3: "settled ?s3 ?w"
    using assms by (simp add: settled_def subscribed_once_def count_list_0_iff)
  have g: "settled (snd (get ev ?w ?s3)) ?w" using s3 by (rule get_settled)
  have eq: "new_watcher v ev opts r s =
     (if ?lz then (Return ?w, ?s3)
      else (case get ev ?w ?s3 of
              (Throw e, s4) \<Rightarrow> (Throw e, s4)
            | (Return val, s4) \<Rightarrow> (Return ?w, upd_watcher ?w (\<lambda>x. x\<lparr>cached := val\<rparr>) s4)))"
    unfolding new_watcher_def Let_def ..
  obtain c s4 where e: "get ev ?w ?s3 = (c, s4)" by (cases "get ev ?w ?s3")
  with g have s4: "settled s4 ?w" by simp
  show ?thesis
  proof (cases ?lz)
    case True
    then show ?thesis unfolding eq using s3 by (simp only: if_True snd_conv)
  next
    case False
    show ?thesis
    proof (cases c)
      case (Return val)
      have "snd (new_watcher v ev opts r s) = upd_watcher ?w (\<lambda>x. x\<lparr>cached := val\<rparr>) s4"
        unfolding eq e Return using False by (simp only: if_False snd_conv split_conv completion.case)
      then show ?thesis using upd_cached_settled[OF s4] by (simp only:)
    next
      case (Throw x)
      have "snd (new_watcher v ev opts r s) = s4"
        unfolding eq e Throw using False by (simp only: if_False snd_conv split_conv completion.case)
      then show ?thesis using s4 by (simp only:)
    qed
  qed
qed

lemma one_watcher_settled: "settled (one_watcher opts) 1"
  using new_watcher_settled[of init_state 0 "reading [0, 1] (Number 1)" opts False]
  by (simp add: one_watcher_def init_state_def)

lemma new_watcher_fields:
  assumes nl: "\<not> (case opts of Some x \<Rightarrow> opt_lazy x | None \<Rightarrow> False)"
    and ret: "outcome ev = Return val"
  shows "active (watchers (snd (new_watcher v ev opts r s)) (watcher_uid s + 1))"
    and "vm (watchers (snd (new_watcher v ev opts r s)) (watcher_uid s + 1)) = v"
    and "cached (watchers (snd (new_watcher v ev opts r s)) (watcher_uid s + 1)) = val"
    and "deep (watchers (snd (new_watcher v ev opts r s)) (watcher_uid s + 1)) =
           (case opts of Some x \<Rightarrow> opt_deep x | None \<Rightarrow> False)"
    and "user (watchers (snd (new_watcher v ev opts r s)) (watcher_uid s + 1)) =
           (case opts of Some x \<Rightarrow> opt_user x | None \<Rightarrow> False)"
    and "sync (watchers (snd (new_watcher v ev opts r s)) (watcher_uid s + 1)) =
           (case opts of Some x \<Rightarrow> opt_sync x | None \<Rightarrow> False)"
    and "\<not> lazy (watchers (snd (new_watcher v ev opts r s)) (watcher_uid s + 1))"
    and "targetStack (snd (new_watcher v ev opts r s)) = targetStack s"
    and "reports (snd (new_watcher v ev opts r s)) = reports s"
    and "cb_calls (snd (new_watcher v ev opts r s)) = cb_calls s"
    and "render_watcher (vms (snd (new_watcher v ev opts r s)) v) =
           (if r then Some (watcher_uid s + 1) else render_watcher (vms s v))"
    and "depIds (watchers (snd (new_watcher v ev opts r s)) (watcher_uid s + 1)) =
           set (touched ev) \<union>
           (if (case opts of Some x \<Rightarrow> opt_deep x | None \<Rightarrow> False)
            then set (traverse ev val) else {})"
proof -
  let ?w = "watcher_uid s + 1"
  let ?lz = "case opts of Some x \<Rightarrow> opt_lazy x | None \<Rightarrow> False"
  let ?s1 = "if r then s\<lparr>vms := (vms s)(v := (vms s v)\<lparr>render_watcher := Some ?w\<rparr>)\<rparr> else s"
  let ?s2 = "?s1\<lparr>vms := (vms ?s1)(v := (vms ?s1 v)\<lparr>vm_watchers := vm_watchers (vms ?s1 v) @ [?w]\<rparr>)\<rparr>"
  let ?me = "\<lparr>vm = v,
                  deep = (case opts of Some x \<Rightarrow> opt_deep x | None \<Rightarrow> False),
                  user = (case opts of Some x \<Rightarrow> opt_user x | None \<Rightarrow> False),
                  lazy = ?lz,
                  sync = (case opts of Some x \<Rightarrow> opt_sync x | None \<Rightarrow> False),
                  dirty = ?lz, active = True, deps = [], newDeps = [],
                  depIds = {}, newDepIds = {}, cached = Undefined\<rparr>"
  let ?s3 = "?s2\<lparr>watcher_uid := ?w, watchers := (watchers ?s2)(?w := ?me)\<rparr>"
  have eq: "new_watcher v ev opts r s =
     (if ?lz then (Return ?w, ?s3)
      else (case get ev ?w ?s3 of
              (Throw e, s4) \<Rightarrow> (Throw e, s4)
            | (Return val, s4) \<Rightarrow> (Return ?w, upd_watcher ?w (\<lambda>x. x\<lparr>cached := val\<rparr>) s4)))"
    unfolding new_watcher_def Let_def ..
  define w where "w = ?w"
  define s3 where "s3 = ?s3"
  have f3: "watchers s3 w = ?me" "targetStack s3 = targetStack s" "reports s3 = reports s"
    "cb_calls s3 = cb_calls s"
    "render_watcher (vms s3 v) = (if r then Some ?w else render_watcher (vms s v))"
    by (simp_all add: s3_def w_def)
  have eq': "new_watcher v ev opts r s =
     (if ?lz then (Return w, s3)
      else (case get ev w s3 of
              (Throw e, s4) \<Rightarrow> (Throw e, s4)
            | (Return val, s4) \<Rightarrow> (Return w, upd_watcher w (\<lambda>x. x\<lparr>cached := val\<rparr>) s4)))"
    unfolding w_def s3_def by (rule eq)
  obtain s4 where g: "get ev w s3 = (Return val, s4)"
    using ret by (simp add: get_eq get_completion_def)
  have s4: "s4 = snd (get ev w s3)" using g by simp
  have "snd (new_watcher v ev opts r s) = upd_watcher w (\<lambda>x. x\<lparr>cached := val\<rparr>) s4"
    unfolding eq' using nl g by simp
  then have res: "snd (new_watcher v ev opts r s) =
               upd_watcher w (\<lambda>x. x\<lparr>cached := val\<rparr>) (snd (get ev w s3))"
    by (simp only: s4)
  have n3: "newDepIds (watchers s3 w) = {}" by (simp add: f3)
  have r3: "set (reached ev w s3) = set (touched ev) \<union>
           (if (case opts of Some x \<Rightarrow> opt_deep x | None \<Rightarrow> False)
            then set (traverse ev val) else {})"
    using ret by (simp add: reached_def result_value_def f3)
  note fld = get_watcher_fields[of ev w s3 w] get_stack[of ev w s3] get_frame[of ev w s3]
    get_reports_eq[of ev w s3] get_depIds[OF n3, of ev]
  show "active (watchers (snd (new_watcher v ev opts r s)) (watcher_uid s + 1))"
    unfolding res w_def[symmetric] by (simp add: upd_watcher_def fld f3)
  show "vm (watchers (snd (new_watcher v ev opts r s)) (watcher_uid s + 1)) = v"
    unfolding res w_def[symmetric] by (simp add: upd_watcher_def fld f3)
  show "cached (watchers (snd (new_watcher v ev opts r s)) (watcher_uid s + 1)) = val"
    unfolding res w_def[symmetric] by (simp add: upd_watcher_def)
  show "deep (watchers (snd (new_watcher v ev opts r s)) (watcher_uid s + 1)) =
           (case opts of Some x \<Rightarrow> opt_deep x | None \<Rightarrow> False)"
    unfolding res w_def[symmetric] by (simp add: upd_watcher_def fld f3)
  show "user (watchers (snd (new_watcher v ev opts r s)) (watcher_uid s + 1)) =
           (case opts of Some x \<Rightarrow> opt_user x | None \<Rightarrow> False)"
    unfolding res w_def[symmetric] by (simp add: upd_watcher_def fld f3)
  show "sync (watchers (snd (new_watcher v ev opts r s)) (watcher_uid s + 1)) =
           (case opts of Some x \<Rightarrow> opt_sync x | None \<Rightarrow> False)"
    unfolding res w_def[symmetric] by (simp add: upd_watcher_def fld f3)
  show "\<not> lazy (watchers (snd (new_watcher v ev opts r s)) (watcher_uid s + 1))"
    unfolding res w_def[symmetric] using nl by (simp add: upd_watcher_def fld f3)
  show "targetStack (snd (new_watcher v ev opts r s)) = targetStack s"
    unfolding res by (simp add: upd_watcher_def fld f3)
  show "reports (snd (new_watcher v ev opts r s)) = reports s"
    unfolding res using ret by (simp add: upd_watcher_def fld f3 get_reports_def)
  show "cb_calls (snd (new_watcher v ev opts r s)) = cb_calls s"
    unfolding res by (simp add: upd_watcher_def fld f3)
  show "render_watcher (vms (snd (new_watcher v ev opts r s)) v) =
           (if r then Some (watcher_uid s + 1) else render_watcher (vms s v))"
    unfolding res by (simp add: upd_watcher_def fld f3)
  show "depIds (watchers (snd (new_watcher v ev opts r s)) (watcher_uid s + 1)) =
           set (touched ev) \<union>
           (if (case opts of Some x \<Rightarrow> opt_deep x | None \<Rightarrow> False)
            then set (traverse ev val) else {})"
    unfolding res w_def[symmetric] by (simp add: upd_watcher_def fld r3)
qed

lemma one_watcher_facts:
  assumes "\<not> (case opts of Some x \<Rightarrow> opt_lazy x | None \<Rightarrow> False)"
  shows "active (watchers (one_watcher opts) (Suc 0))"
    and "vm (watchers (one_watcher opts) (Suc 0)) = 0"
    and "cached (watchers (one_watcher opts) (Suc 0)) = Number 1"
    and "deep (watchers (one_watcher opts) (Suc 0)) =
           (case opts of Some x \<Rightarrow> opt_deep x | None \<Rightarrow> False)"
    and "user (watchers (one_watcher opts) (Suc 0)) =
           (case opts of Some x \<Rightarrow> opt_user x | None \<Rightarrow> False)"
    and "targetStack (one_watcher opts) = []"
    and "reports (one_watcher opts) = []"
    and "cb_calls (one_watcher opts) = []"
    and "render_watcher (vms (one_watcher opts) 0) = None"
    and "depIds (watchers (one_watcher opts) (Suc 0)) = {0, Suc 0}"
  using new_watcher_fields[OF assms, of "reading [0, 1] (Number 1)" "Number 1" 0 False init_state]
  by (auto simp add: one_watcher_def reading_def init_state_def)

lemma plain_watcher:
  "active (watchers (one_watcher None) (Suc 0))"
  "vm (watchers (one_watcher None) (Suc 0)) = 0"
  "cached (watchers (one_watcher None) (Suc 0)) = Number 1"
  "\<not> deep (watchers (one_watcher None) (Suc 0))"
  "\<not> user (watchers (one_watcher None) (Suc 0))"
  "targetStack (one_watcher None) = []"
  "reports (one_watcher None) = []"
  "cb_calls (one_watcher None) = []"
  "render_watcher (vms (one_watcher None) 0) = None"
  "depIds (watchers (one_watcher None) (Suc 0)) = {0, Suc 0}"
  using one_watcher_facts[of None] by simp_all

lemma user_watcher:
  "active (watchers (one_watcher (Some user_options)) (Suc 0))"
  "vm (watchers (one_watcher (Some user_options)) (Suc 0)) = 0"
  "cached (watchers (one_watcher (Some user_options)) (Suc 0)) = Number 1"
  "\<not> deep (watchers (one_watcher (Some user_options)) (Suc 0))"
  "user (watchers (one_watcher (Some user_options)) (Suc 0))"
  "targetStack (one_watcher (Some user_options)) = []"
  "reports (one_watcher (Some user_options)) = []"
  "cb_calls (one_watcher (Some user_options)) = []"
  "depIds (watchers (one_watcher (Some user_options)) (Suc 0)) = {0, Suc 0}"
proof -
  have nl: "\<not> (case Some user_options of Some x \<Rightarrow> opt_lazy x | None \<Rightarrow> False)"
    by (simp add: user_options_def)
  note f = one_watcher_facts[OF nl]
  show "active (watchers (one_watcher (Some user_options)) (Suc 0))" by (rule f)
  show "vm (watchers (one_watcher (Some user_options)) (Suc 0)) = 0" by (rule f)
  show "cached (watchers (one_watcher (Some user_options)) (Suc 0)) = Number 1" by (rule f)
  show "\<not> deep (watchers (one_watcher (Some user_options)) (Suc 0))"
    using f(4) by (simp add: user_options_def)
  show "user (watchers (one_watcher (Some user_options)) (Suc 0))"
    using f(5) by (simp add: user_options_def)
  show "targetStack (one_watcher (Some user_options)) = []" by (rule f)
  show "reports (one_watcher (Some user_options)) = []" by (rule f)
  show "cb_calls (one_watcher (Some user_options)) = []" by (rule f)
  show "depIds (watchers (one_watcher (Some user_options)) (Suc 0)) = {0, Suc 0}" by (rule f)
qed

section \<open>The claims about the watcher and the Dep\<close>

text \<open>
  C1. A watcher that is settled (its new generation empty, subscribed only to the
  Deps of \<open>depIds\<close>, at most once each) is evaluated by \<open>get\<close>. Afterwards \<open>deps\<close> and
  \<open>depIds\<close> hold exactly the Deps whose \<open>depend()\<close> the evaluation reached, the new
  generation is empty again, the watcher is on the subscriber list of no Dep that
  was not reached, so that no \<open>notify\<close> of such a Dep calls its \<open>update()\<close>, and the
  watcher is settled for the next run. This holds whether the getter returns or
  throws.
\<close>

theorem get_deps_exact:
  assumes "settled s w"
  shows "set (deps (watchers (snd (get ev w s)) w)) = set (reached ev w s) \<and>
         depIds (watchers (snd (get ev w s)) w) = set (reached ev w s) \<and>
         newDeps (watchers (snd (get ev w s)) w) = [] \<and>
         newDepIds (watchers (snd (get ev w s)) w) = {} \<and>
         (\<forall>d. d \<notin> set (reached ev w s) \<longrightarrow>
            w \<notin> set (subs (snd (get ev w s)) d) \<and>
            (\<forall>en upd. w \<notin> set (fst (notify en upd d (snd (get ev w s)))))) \<and>
         settled (snd (get ev w s)) w"
proof -
  let ?s' = "snd (get ev w s)"
  have st: "settled ?s' w" using assms by (rule get_settled)
  have n0: "newDepIds (watchers s w) = {}" using assms by (simp add: settled_def)
  have di: "depIds (watchers ?s' w) = set (reached ev w s)" using n0 by (rule get_depIds)
  have dl: "set (deps (watchers ?s' w)) = set (reached ev w s)"
    using st di by (simp add: settled_def)
  have gone: "w \<notin> set (subs ?s' d)" if "d \<notin> set (reached ev w s)" for d
    using st di that by (auto simp: settled_def)
  have quiet: "w \<notin> set (fst (notify en upd d ?s'))" if "d \<notin> set (reached ev w s)" for d en upd
    using gone[OF that] notify_subset[of en upd d ?s'] by blast
  show ?thesis using st di dl gone quiet by (simp add: get_new_generation)
qed

theorem get_deps_exact_witness:
  "settled (one_watcher None) 1 \<and>
   depIds (watchers (one_watcher None) 1) = {0, 1} \<and>
   set (deps (watchers (snd (get (reading [1, 2] (Number 2)) 1 (one_watcher None))) 1)) = {1, 2} \<and>
   1 \<notin> set (subs (snd (get (reading [1, 2] (Number 2)) 1 (one_watcher None))) 0) \<and>
   1 \<notin> set (fst (notify development_sync demo_update 0
                   (snd (get (reading [1, 2] (Number 2)) 1 (one_watcher None)))))"
proof -
  have h: "settled (one_watcher None) 1" by (rule one_watcher_settled)
  have r: "reached (reading [1, 2] (Number 2)) 1 (one_watcher None) = [1, 2]"
    by (simp add: reached_def reading_def plain_watcher)
  show ?thesis
    using get_deps_exact[OF h, of "reading [1, 2] (Number 2)"] h r plain_watcher
    by simp
qed

text \<open>
  C4, as amended. \<open>get\<close> leaves the target stack as it found it and \<open>Dep.target\<close> at
  the previous top of the stack, with the new generation cleared by the cleanup,
  whether the getter returns or throws; the Deps reached are registered on this
  watcher, which was the target while the getter ran. A getter that returns is not
  reported. When the getter throws, a user watcher's \<open>get\<close> returns \<open>undefined\<close> and
  hands the error to \<open>handleError\<close>; the \<open>get\<close> of every other watcher, the render
  watcher or not, rethrows the error and reports nothing.
\<close>

theorem get_restores_stack_and_cleans:
  "targetStack (snd (get ev w s)) = targetStack s \<and>
   dep_target (snd (get ev w s)) = stack_top (targetStack s) \<and>
   newDeps (watchers (snd (get ev w s)) w) = [] \<and>
   newDepIds (watchers (snd (get ev w s)) w) = {} \<and>
   set (reached ev w s) \<subseteq> depIds (watchers (snd (get ev w s)) w) \<and>
   (\<forall>x. outcome ev = Return x \<longrightarrow>
      fst (get ev w s) = Return x \<and> reports (snd (get ev w s)) = reports s) \<and>
   (\<forall>e. outcome ev = Throw e \<longrightarrow>
      (if user (watchers s w)
       then fst (get ev w s) = Return Undefined \<and>
            reports (snd (get ev w s)) =
              reports s @ [Handled e (vm (watchers s w)) ''getter for watcher'']
       else fst (get ev w s) = Throw e \<and> reports (snd (get ev w s)) = reports s))"
  by (simp add: get_stack get_new_generation get_depIds_gen get_fst get_reports_eq
        get_completion_def get_reports_def)

theorem get_restores_stack_and_cleans_witness:
  "outcome (throwing [0] (Thrown ''boom'')) = Throw (Thrown ''boom'') \<and>
   user (watchers (one_watcher (Some user_options)) 1) \<and>
   fst (get (throwing [0] (Thrown ''boom'')) 1 (one_watcher (Some user_options))) = Return Undefined \<and>
   reports (snd (get (throwing [0] (Thrown ''boom'')) 1 (one_watcher (Some user_options)))) =
     [Handled (Thrown ''boom'') 0 ''getter for watcher''] \<and>
   targetStack (snd (get (throwing [0] (Thrown ''boom'')) 1 (one_watcher (Some user_options)))) = []"
  using get_restores_stack_and_cleans[of "throwing [0] (Thrown ''boom'')" 1
          "one_watcher (Some user_options)"]
  by (simp add: throwing_def user_watcher)

text \<open>
  C4 as stated fails: watcher 1 of \<open>one_watcher None\<close> is not a user watcher and not
  the render watcher of its component, and its \<open>get\<close> rethrows the getter's error.
\<close>

theorem get_rethrows_for_non_render_counterexample:
  "\<not> user (watchers (one_watcher None) 1) \<and>
   render_watcher (vms (one_watcher None) (vm (watchers (one_watcher None) 1))) \<noteq> Some 1 \<and>
   fst (get (throwing [0] (Thrown ''boom'')) 1 (one_watcher None)) = Throw (Thrown ''boom'')"
  by (simp add: get_fst get_completion_def throwing_def plain_watcher)

lemmas step_defs =
  get_def pushTarget_def popTarget_def stack_top_def depend_def addDep_def upd_watcher_def
  addSub_def removeSub_def remove_def cleanupDeps_def handleError_def Let_def
  new_watcher_def reading_def init_state_def holding_def numeral_2_eq_2

lemma first_step:
  "snd (new_watcher 0 (reading [] Undefined) None False init_state) = after_first"
  by (simp add: step_defs after_first_def)

lemma second_step:
  "snd (new_watcher 0 (reading [0] Undefined) None False after_first) = after_second"
  by (simp add: step_defs after_first_def after_second_def)

lemma third_step:
  "snd (get (reading [0] Undefined) 1 after_second) = after_third"
  by (simp add: step_defs after_second_def after_third_def fun_upd_twist)

lemma two_watchers_eq: "two_watchers = after_third"
  by (simp only: two_watchers_def Let_def first_step second_step third_step)

lemma two_watchers_subs: "subs two_watchers 0 = [2, 1]"
  by (simp add: two_watchers_eq after_third_def)

lemma two_watchers_production:
  "notify production_sync demo_update 0 two_watchers =
     ([2, 1], Return (), two_watchers\<lparr>notified := [0], queue := [2, 1]\<rparr>)"
  unfolding two_watchers_eq
  by (simp add: notify_def production_sync_def demo_update_def update_def
        queueWatcher_def after_third_def init_state_def holding_def)

text \<open>
  C3, as amended. \<open>notify\<close> iterates over a copy of the subscriber list taken before
  the first \<open>update()\<close>: whatever the \<open>update()\<close> calls do to the state, the
  subscribers' lists included, the watchers updated are an initial segment of that
  copy, in its order, and all of it when no \<open>update()\<close> throws. The copy is sorted in
  ascending id order when the build is not a production build and \<open>config.async\<close>
  is off, and then the calls happen in ascending id order; it is the list \<open>subs\<close> as
  it stands otherwise.
\<close>

theorem notify_dispatches_snapshot:
  "(\<exists>rest. snapshot_of en d s = fst (notify en upd d s) @ rest) \<and>
   (fst (snd (notify en upd d s)) = Return () \<longrightarrow>
      fst (notify en upd d s) = snapshot_of en d s) \<and>
   ((\<forall>w t. fst (upd w t) = Return ()) \<longrightarrow> fst (notify en upd d s) = snapshot_of en d s) \<and>
   (\<not> production en \<and> \<not> async en \<longrightarrow>
      sorted (fst (notify en upd d s)) \<and> set (snapshot_of en d s) = set (subs s d))"
proof -
  have n: "notify en upd d s =
             dispatch upd (snapshot_of en d s) (s\<lparr>notified := notified s @ [d]\<rparr>)"
    by (simp add: notify_def snapshot_of_def Let_def)
  have p: "\<exists>rest. snapshot_of en d s = fst (notify en upd d s) @ rest"
    unfolding n by (rule dispatch_prefix)
  have a: "fst (snd (notify en upd d s)) = Return () \<longrightarrow>
      fst (notify en upd d s) = snapshot_of en d s"
    unfolding n using dispatch_all by blast
  have b: "(\<forall>w t. fst (upd w t) = Return ()) \<longrightarrow> fst (notify en upd d s) = snapshot_of en d s"
    unfolding n using dispatch_all dispatch_returns by blast
  have c: "\<not> production en \<and> \<not> async en \<longrightarrow>
      sorted (fst (notify en upd d s)) \<and> set (snapshot_of en d s) = set (subs s d)"
  proof
    assume h: "\<not> production en \<and> \<not> async en"
    then have srt: "sorted (snapshot_of en d s)" by (simp add: snapshot_of_def)
    from p obtain rest where "snapshot_of en d s = fst (notify en upd d s) @ rest" by blast
    with srt have "sorted (fst (notify en upd d s))" by (metis sorted_prefix)
    moreover have "set (snapshot_of en d s) = set (subs s d)" using h by (simp add: snapshot_of_def)
    ultimately show "sorted (fst (notify en upd d s)) \<and> set (snapshot_of en d s) = set (subs s d)"
      by simp
  qed
  from p a b c show ?thesis by blast
qed

theorem notify_dispatches_snapshot_witness:
  "\<not> production development_sync \<and> \<not> async development_sync \<and>
   subs two_watchers 0 = [2, 1] \<and>
   sorted (fst (notify development_sync demo_update 0 two_watchers)) \<and>
   set (snapshot_of development_sync 0 two_watchers) = {1, 2} \<and>
   (\<forall>w t. fst (leaving 0 w t) = Return ()) \<and>
   fst (notify development_sync (leaving 0) 0 two_watchers) = [1, 2] \<and>
   subs (snd (snd (notify development_sync (leaving 0) 0 two_watchers))) 0 = []"
proof -
  have l: "\<forall>w t. fst (leaving 0 w t) = Return ()" by (simp add: leaving_def)
  have sn: "snapshot_of development_sync 0 two_watchers = [1, 2]"
    by (simp add: snapshot_of_def development_sync_def two_watchers_subs)
  have e: "subs (snd (snd (notify development_sync (leaving 0) 0 two_watchers))) 0 = []"
    unfolding two_watchers_eq
    by (simp add: notify_def development_sync_def leaving_def removeSub_def remove_def
          after_third_def init_state_def)
  show ?thesis
    using notify_dispatches_snapshot[of development_sync 0 two_watchers demo_update]
      notify_dispatches_snapshot[of development_sync 0 two_watchers "leaving 0"] l sn e
    by (simp add: development_sync_def two_watchers_subs insert_commute)
qed

text \<open>
  C3 as stated fails: in a production build with \<open>config.async\<close> off the list is not
  sorted, and the watchers of Dep 0 of \<open>two_watchers\<close> are updated in the order 2, 1.
\<close>

theorem notify_unsorted_in_production_counterexample:
  "\<not> async production_sync \<and>
   fst (notify production_sync demo_update 0 two_watchers) = [2, 1] \<and>
   \<not> sorted (fst (notify production_sync demo_update 0 two_watchers))"
  by (simp add: two_watchers_production) (simp add: production_sync_def)

text \<open>
  C7. \<open>run\<close> does nothing on a watcher that is not active. On an active one it
  evaluates with \<open>get\<close>; when \<open>get\<close> throws, \<open>run\<close> throws and the callback is not
  called; when \<open>get\<close> returns \<open>val\<close>, the callback is called, once, with \<open>val\<close> and the
  cached value, exactly when \<open>val !== cached\<close>, or \<open>val\<close> is an object, or the watcher
  is deep, and \<open>val\<close> is then the cached value. A callback that throws is handed to
  \<open>handleError\<close> in a user watcher, whose \<open>run\<close> returns; in any other watcher \<open>run\<close>
  throws the error and reports nothing.
\<close>

theorem run_fires_callback:
  "(\<not> active (watchers s w) \<longrightarrow> run ev cb w s = (Return (), s)) \<and>
   (active (watchers s w) \<longrightarrow>
      (\<forall>e. fst (get ev w s) = Throw e \<longrightarrow>
         fst (run ev cb w s) = Throw e \<and> cb_calls (snd (run ev cb w s)) = cb_calls s) \<and>
      (\<forall>val. fst (get ev w s) = Return val \<longrightarrow>
         cb_calls (snd (run ev cb w s)) =
           cb_calls s @ (if fires val w s then [(w, val, cached (watchers s w))] else []) \<and>
         (\<not> fires val w s \<longrightarrow>
            run ev cb w s = (Return (), snd (get ev w s))) \<and>
         (fires val w s \<longrightarrow>
            cached (watchers (snd (run ev cb w s)) w) = val \<and>
            (\<forall>u. cb val (cached (watchers s w)) = Return u \<longrightarrow>
               fst (run ev cb w s) = Return () \<and>
               reports (snd (run ev cb w s)) = reports (snd (get ev w s))) \<and>
            (\<forall>e. cb val (cached (watchers s w)) = Throw e \<longrightarrow>
               (if user (watchers s w)
                then fst (run ev cb w s) = Return () \<and>
                     reports (snd (run ev cb w s)) =
                       reports (snd (get ev w s)) @
                       [Handled e (vm (watchers s w)) ''callback for watcher'']
                else fst (run ev cb w s) = Throw e \<and>
                     reports (snd (run ev cb w s)) = reports (snd (get ev w s)))))))"
proof -
  have a: "\<not> active (watchers s w) \<longrightarrow> run ev cb w s = (Return (), s)"
    by (simp add: run_inactive)
  have b: "fst (run ev cb w s) = Throw e \<and> cb_calls (snd (run ev cb w s)) = cb_calls s"
    if "active (watchers s w)" "fst (get ev w s) = Throw e" for e
    using run_get_throws[OF that] by (simp add: get_frame)
  have c: "cb_calls (snd (run ev cb w s)) =
           cb_calls s @ (if fires val w s then [(w, val, cached (watchers s w))] else [])"
    if "active (watchers s w)" "fst (get ev w s) = Return val" for val
  proof (cases "fires val w s")
    case True
    then show ?thesis using run_fires(1)[OF that True] by simp
  next
    case False
    then show ?thesis using run_quiet[OF that False] by (simp add: get_frame)
  qed
  have d: "run ev cb w s = (Return (), snd (get ev w s))"
    if "active (watchers s w)" "fst (get ev w s) = Return val" "\<not> fires val w s" for val
    using that by (rule run_quiet)
  have e: "cached (watchers (snd (run ev cb w s)) w) = val"
    if "active (watchers s w)" "fst (get ev w s) = Return val" "fires val w s" for val
    using that by (rule run_fires(2))
  have f: "fst (run ev cb w s) = Return () \<and>
           reports (snd (run ev cb w s)) = reports (snd (get ev w s))"
    if "active (watchers s w)" "fst (get ev w s) = Return val" "fires val w s"
       "cb val (cached (watchers s w)) = Return u" for val u
    using run_fires(3)[OF that(1-3), of cb] run_fires(4)[OF that(1-3), of cb] that(4) by simp
  have g: "if user (watchers s w)
           then fst (run ev cb w s) = Return () \<and>
                reports (snd (run ev cb w s)) =
                  reports (snd (get ev w s)) @
                  [Handled x (vm (watchers s w)) ''callback for watcher'']
           else fst (run ev cb w s) = Throw x \<and>
                reports (snd (run ev cb w s)) = reports (snd (get ev w s))"
    if "active (watchers s w)" "fst (get ev w s) = Return val" "fires val w s"
       "cb val (cached (watchers s w)) = Throw x" for val x
    using run_fires(3)[OF that(1-3), of cb] run_fires(4)[OF that(1-3), of cb] that(4) by simp
  show ?thesis
    apply (intro conjI impI allI)
    subgoal using a by blast
    subgoal using b by blast
    subgoal using b by blast
    subgoal using c by blast
    subgoal using d by blast
    subgoal using e by blast
    subgoal using f by blast
    subgoal using f by blast
    subgoal using g by meson
    done
qed

theorem run_fires_callback_witness:
  "active (watchers (one_watcher (Some user_options)) 1) \<and>
   fst (get (reading [0] (Number 2)) 1 (one_watcher (Some user_options))) = Return (Number 2) \<and>
   fires (Number 2) 1 (one_watcher (Some user_options)) \<and>
   failing_cb (Number 2) (cached (watchers (one_watcher (Some user_options)) 1)) =
     Throw (Thrown ''cb'') \<and>
   user (watchers (one_watcher (Some user_options)) 1) \<and>
   cb_calls (snd (run (reading [0] (Number 2)) failing_cb 1 (one_watcher (Some user_options)))) =
     [(1, Number 2, Number 1)] \<and>
   fst (run (reading [0] (Number 2)) failing_cb 1 (one_watcher (Some user_options))) = Return () \<and>
   reports (snd (run (reading [0] (Number 2)) failing_cb 1 (one_watcher (Some user_options)))) =
     [Handled (Thrown ''cb'') 0 ''callback for watcher'']"
proof -
  have g: "fst (get (reading [0] (Number 2)) 1 (one_watcher (Some user_options))) = Return (Number 2)"
    by (simp add: get_fst get_completion_def reading_def)
  have r: "reports (snd (get (reading [0] (Number 2)) 1 (one_watcher (Some user_options)))) = []"
    by (simp add: get_reports_eq get_reports_def reading_def user_watcher)
  have f: "fires (Number 2) 1 (one_watcher (Some user_options))"
    by (simp add: fires_def strict_eq_def user_watcher)
  have c: "failing_cb (Number 2) (cached (watchers (one_watcher (Some user_options)) 1)) =
     Throw (Thrown ''cb'')"
    by (simp add: failing_cb_def)
  show ?thesis
    using run_fires_callback[of "one_watcher (Some user_options)" 1 "reading [0] (Number 2)"
            failing_cb] g r f c
    by (simp add: user_watcher)
qed

text \<open>
  C8. A second \<open>teardown\<close> changes nothing: the state after two calls is the state
  after one, and the watcher is inactive after the first. The first call on an
  active watcher that occurs at most once in a subscriber list removes it from the
  list of every Dep in \<open>deps\<close>, and leaves a settled watcher on no subscriber list
  at all. \<open>teardown\<close> has no throwing branch: it is a total function on states.
\<close>

theorem teardown_twice:
  "teardown w (teardown w s) = teardown w s \<and>
   \<not> active (watchers (teardown w s) w) \<and>
   (active (watchers s w) \<and> subscribed_once s w \<longrightarrow>
      (\<forall>d \<in> set (deps (watchers s w)). w \<notin> set (subs (teardown w s) d))) \<and>
   (active (watchers s w) \<and> settled s w \<longrightarrow> (\<forall>d. w \<notin> set (subs (teardown w s) d)))"
proof -
  let ?v = "vm (watchers s w)"
  let ?s1 = "if \<not> isBeingDestroyed (vms s ?v)
     then s\<lparr>vms := (vms s)(?v := (vms s ?v)\<lparr>vm_watchers := remove (vm_watchers (vms s ?v)) w\<rparr>)\<rparr>
     else s"
  have w1: "watchers ?s1 = watchers s" and s1: "subs ?s1 = subs s" by simp_all
  have sb: "active (watchers s w) \<Longrightarrow>
            subs (teardown w s) = subs (teardown_loop w (rev (deps (watchers ?s1 w))) ?s1)"
    by (simp add: teardown_def Let_def upd_watcher_def)
  have idem: "teardown w (teardown w s) = teardown w s"
    using teardown_inactive[of w s] by (subst teardown_def) simp
  have rm: "w \<notin> set (subs (teardown w s) d)"
    if a: "active (watchers s w)" and o: "subscribed_once s w" and d: "d \<in> set (deps (watchers s w))" for d
  proof -
    have c: "count_list (subs ?s1 d) w \<le> 1" using o s1 by (simp add: subscribed_once_def)
    have "d \<in> set (rev (deps (watchers ?s1 w)))" using d w1 by simp
    then have "w \<notin> set (subs (teardown_loop w (rev (deps (watchers ?s1 w))) ?s1) d)"
      using c by (rule teardown_loop_gone)
    then show ?thesis using sb[OF a] by simp
  qed
  have nowhere: "w \<notin> set (subs (teardown w s) d)"
    if a: "active (watchers s w)" and st: "settled s w" for d
  proof (cases "d \<in> set (deps (watchers s w))")
    case True
    from st have "subscribed_once s w" by (simp add: settled_def)
    with a show ?thesis using True by (rule rm)
  next
    case False
    then have "w \<notin> set (subs s d)" using st by (auto simp: settled_def)
    then have "count_list (subs ?s1 d) w = 0" using s1 by (simp add: count_list_0_iff)
    then have "count_list (subs (teardown_loop w (rev (deps (watchers ?s1 w))) ?s1) d) w = 0"
      using teardown_loop_count_le[of w "rev (deps (watchers ?s1 w))" ?s1 d w] by simp
    then show ?thesis using sb[OF a] by (simp add: count_list_0_iff)
  qed
  show ?thesis using idem teardown_inactive rm nowhere by blast
qed

theorem teardown_twice_witness:
  "active (watchers (one_watcher None) 1) \<and> subscribed_once (one_watcher None) 1 \<and>
   0 \<in> set (deps (watchers (one_watcher None) 1)) \<and>
   1 \<notin> set (subs (teardown 1 (one_watcher None)) 0) \<and>
   teardown 1 (teardown 1 (one_watcher None)) = teardown 1 (one_watcher None)"
proof -
  have s: "settled (one_watcher None) 1" by (rule one_watcher_settled)
  then have o: "subscribed_once (one_watcher None) 1" by (simp add: settled_def)
  have d: "0 \<in> set (deps (watchers (one_watcher None) 1))"
    using s by (simp add: settled_def plain_watcher)
  show ?thesis
    using teardown_twice[of 1 "one_watcher None"] o d
    by (simp add: plain_watcher)
qed

section \<open>Lemmas on the observer\<close>

declare observe.simps [simp del]

lemmas setter_simps = call_setter.simps

declare call_setter.simps [simp del]

lemma observe_unfold:
  "observe n en =
     observe_step (case n of 0 \<Rightarrow> (\<lambda>r s. (Throw RangeError, s))
                   | Suc m \<Rightarrow> Observer_step (\<lambda>v. observe m en v False) m) en"
  by (cases n) (simp_all add: observe.simps)

lemma observe_not_object:
  "\<not> isObject val \<Longrightarrow> observe n en val asRootData s = (Return None, s)"
  by (cases val) (simp_all add: observe_unfold observe_step_def isObject_def)

lemma observe_VNode:
  "klass (heap s r) = VNodeObject \<Longrightarrow> observe n en (Object r) asRootData s = (Return None, s)"
  by (simp add: observe_unfold observe_step_def)

lemma observe_marked:
  assumes "klass (heap s r) \<noteq> VNodeObject" "ob (heap s r) = Some b"
  shows "observe n en (Object r) asRootData s =
           (Return (Some b),
            if asRootData
            then s\<lparr>observers :=
                   (observers s)(b := (observers s b)\<lparr>vmCount := vmCount (observers s b) + 1\<rparr>)\<rparr>
            else s)"
  using assms by (simp add: observe_unfold observe_step_def)

lemma observe_excluded:
  assumes "ob (heap s r) = None"
    and "\<not> shouldObserve s \<or> serverRendering en \<or>
         (klass (heap s r) \<noteq> ArrayObject \<and> klass (heap s r) \<noteq> PlainObject) \<or>
         \<not> extensible (heap s r) \<or> isVue (heap s r)"
  shows "observe n en (Object r) asRootData s = (Return None, s)"
  using assms by (auto simp add: observe_unfold observe_step_def)


lemma keeps_refl: "keeps s s"
  by (simp add: keeps_def)

lemma keeps_trans: "keeps s t \<Longrightarrow> keeps t u \<Longrightarrow> keeps s u"
  by (simp add: keeps_def)

lemma keeps_heap: "heap s' = heap s \<Longrightarrow> keeps s s'"
  by (simp add: keeps_def)

lemma for_each_keeps:
  assumes "\<And>x t. keeps t (snd (body x t))"
  shows "keeps s (snd (for_each body xs s))"
proof (induction xs arbitrary: s)
  case Nil
  then show ?case by (simp add: keeps_refl)
next
  case (Cons x xs)
  obtain c s1 where b: "body x s = (c, s1)" by (cases "body x s")
  have k1: "keeps s s1" using assms[of s x] b by simp
  show ?case
  proof (cases c)
    case (Return u)
    then show ?thesis using b k1 Cons[of s1] by (auto intro: keeps_trans)
  next
    case (Throw e)
    then show ?thesis using b k1 by simp
  qed
qed

lemma for_each_heap:
  assumes "\<And>x t. heap (snd (body x t)) = heap t \<and> observers (snd (body x t)) = observers t"
  shows "heap (snd (for_each body xs s)) = heap s \<and>
         observers (snd (for_each body xs s)) = observers s"
proof (induction xs arbitrary: s)
  case Nil
  then show ?case by simp
next
  case (Cons x xs)
  obtain c s1 where b: "body x s = (c, s1)" by (cases "body x s")
  have k1: "heap s1 = heap s \<and> observers s1 = observers s" using assms[of x s] b by simp
  show ?case
  proof (cases c)
    case (Return u)
    then show ?thesis using b k1 Cons[of s1] by simp
  next
    case (Throw e)
    then show ?thesis using b k1 by simp
  qed
qed

lemma depend_heap: "heap (depend d s) = heap s" "observers (depend d s) = observers s"
  by (simp_all add: depend_def addDep_def upd_watcher_def addSub_def Let_def split: target.split)

lemma element_depend_heap:
  "heap (snd (element_depend e s)) = heap s" "observers (snd (element_depend e s)) = observers s"
  by (simp_all add: element_depend_def depend_heap split: jsval.split option.split)

lemma dependArray_step_heap:
  assumes "\<And>es t. heap (snd (rec es t)) = heap t \<and> observers (snd (rec es t)) = observers t"
  shows "heap (snd (dependArray_step rec es s)) = heap s \<and>
         observers (snd (dependArray_step rec es s)) = observers s"
  unfolding dependArray_step_def
proof (rule for_each_heap)
  fix e t
  obtain c t1 where d: "element_depend e t = (c, t1)" by (cases "element_depend e t")
  have h: "heap t1 = heap t" "observers t1 = observers t"
    using element_depend_heap[of e t] d by simp_all
  have r: "heap (snd (rec es' t1)) = heap t \<and> observers (snd (rec es' t1)) = observers t" for es'
    using assms[of es' t1] h by simp
  show "heap (snd (case element_depend e t of
                  (Throw x, s1) \<Rightarrow> (Throw x, s1)
                | (Return u, s1) \<Rightarrow>
                    (case e of
                       Object r \<Rightarrow>
                         if klass (heap s1 r) = ArrayObject then rec (items (heap s1 r)) s1
                         else (Return (), s1)
                     | _ \<Rightarrow> (Return (), s1)))) = heap t \<and>
        observers (snd (case element_depend e t of
                  (Throw x, s1) \<Rightarrow> (Throw x, s1)
                | (Return u, s1) \<Rightarrow>
                    (case e of
                       Object r \<Rightarrow>
                         if klass (heap s1 r) = ArrayObject then rec (items (heap s1 r)) s1
                         else (Return (), s1)
                     | _ \<Rightarrow> (Return (), s1)))) = observers t"
    unfolding d using h r by (cases c; cases e) simp_all
qed

lemma dependArray_heap:
  "heap (snd (dependArray n es s)) = heap s \<and> observers (snd (dependArray n es s)) = observers s"
proof (induction n arbitrary: es s)
  case 0
  show ?case by (simp add: dependArray_step_heap)
next
  case (Suc n)
  show ?case using Suc by (simp add: dependArray_step_heap)
qed

lemma call_getter_heap:
  "heap (snd (call_getter n p s)) = heap s \<and> observers (snd (call_getter n p s)) = observers s"
proof (induction p arbitrary: s)
  case (Data v w c)
  then show ?case by simp
next
  case (Accessor g st slot c)
  then show ?case by simp
next
  case (Reactive d val childOb orig cs sh cf)
  define inner where "inner = (case orig of
              Some q \<Rightarrow> if has_getter (Some q) then call_getter n q s else (Return val, s)
            | None \<Rightarrow> (Return val, s))"
  have ih: "heap (snd inner) = heap s \<and> observers (snd inner) = observers s"
  proof (cases orig)
    case None
    then show ?thesis by (simp add: inner_def)
  next
    case (Some q)
    then show ?thesis using Reactive[of q s] by (simp add: inner_def)
  qed
  obtain c s1 where i: "inner = (c, s1)" by (cases inner)
  have h1: "heap s1 = heap s" "observers s1 = observers s" using ih i by simp_all
  have eq: "call_getter n (Reactive d val childOb orig cs sh cf) s =
     (case (c, s1) of
        (Throw x, s1) \<Rightarrow> (Throw x, s1)
      | (Return v, s1) \<Rightarrow>
          (case dep_target s1 of
             TWatcher w \<Rightarrow>
               (let s2 = depend d s1
                in case childOb of
                     Some b \<Rightarrow>
                       (let s3 = depend (ob_dep (observers s2 b)) s2
                        in case v of
                             Object r \<Rightarrow>
                               if klass (heap s3 r) = ArrayObject then
                                 (case dependArray n (items (heap s3 r)) s3 of
                                    (Throw x, s4) \<Rightarrow> (Throw x, s4)
                                  | (Return u, s4) \<Rightarrow> (Return v, s4))
                               else (Return v, s3)
                           | _ \<Rightarrow> (Return v, s3))
                   | None \<Rightarrow> (Return v, s2))
           | _ \<Rightarrow> (Return v, s1)))"
    by (simp only: call_getter.simps inner_def[symmetric] i)
  have da: "heap t' = heap t \<and> observers t' = observers t"
    if "dependArray n es t = (x, t')" for es t x t'
    using dependArray_heap[of n es t] that by simp
  show ?case
    unfolding eq using h1
    by (auto simp: Let_def depend_heap dest!: da split: completion.split target.split
          option.split jsval.split prod.split)
qed

lemma read_heap:
  "heap (snd (read n obj k s)) = heap s \<and> observers (snd (read n obj k s)) = observers s"
  by (simp add: read_def call_getter_heap split: option.split)

lemma reads_only_refl: "reads_only s s"
  by (simp add: reads_only_def)

lemma reads_only_trans: "reads_only s t \<Longrightarrow> reads_only t u \<Longrightarrow> reads_only s u"
  by (simp add: reads_only_def)

lemma depend_reads_only: "reads_only s (depend d s)"
  by (simp add: reads_only_def depend_def addDep_def upd_watcher_def addSub_def Let_def
        split: target.split)

lemma element_depend_reads_only: "reads_only s (snd (element_depend e s))"
  by (simp add: element_depend_def depend_reads_only reads_only_refl
        split: jsval.split option.split)

lemma for_each_reads_only:
  assumes "\<And>x t. reads_only t (snd (body x t))"
  shows "reads_only s (snd (for_each body xs s))"
proof (induction xs arbitrary: s)
  case Nil
  then show ?case by (simp add: reads_only_refl)
next
  case (Cons x xs)
  obtain c s1 where b: "body x s = (c, s1)" by (cases "body x s")
  have k1: "reads_only s s1" using assms[of s x] b by simp
  show ?case
  proof (cases c)
    case (Return u)
    then show ?thesis using b reads_only_trans[OF k1 Cons[of s1]] by simp
  next
    case (Throw e)
    then show ?thesis using b k1 by simp
  qed
qed

lemma dependArray_step_reads_only:
  assumes "\<And>es t. reads_only t (snd (rec es t))"
  shows "reads_only s (snd (dependArray_step rec es s))"
  unfolding dependArray_step_def
proof (rule for_each_reads_only)
  fix e t
  obtain c t1 where d: "element_depend e t = (c, t1)" by (cases "element_depend e t")
  have a: "reads_only t t1" using element_depend_reads_only[of t e] d by simp
  have b: "reads_only t (snd (rec es' t1))" for es'
    by (rule reads_only_trans[OF a assms])
  show "reads_only t (snd (case element_depend e t of
                  (Throw x, s1) \<Rightarrow> (Throw x, s1)
                | (Return u, s1) \<Rightarrow>
                    (case e of
                       Object r \<Rightarrow>
                         if klass (heap s1 r) = ArrayObject then rec (items (heap s1 r)) s1
                         else (Return (), s1)
                     | _ \<Rightarrow> (Return (), s1))))"
    unfolding d using a b by (cases c; cases e) simp_all
qed

lemma dependArray_reads_only: "reads_only s (snd (dependArray n es s))"
proof (induction n arbitrary: es s)
  case 0
  show ?case by (simp add: dependArray_step_reads_only reads_only_refl)
next
  case (Suc n)
  show ?case using Suc by (simp add: dependArray_step_reads_only)
qed

lemma call_getter_reads_only: "reads_only s (snd (call_getter n p s))"
proof (induction p arbitrary: s)
  case (Data v w c)
  then show ?case by (simp add: reads_only_refl)
next
  case (Accessor g st slot c)
  then show ?case by (simp add: reads_only_refl)
next
  case (Reactive d val childOb orig cs sh cf)
  define inner where "inner = (case orig of
              Some q \<Rightarrow> if has_getter (Some q) then call_getter n q s else (Return val, s)
            | None \<Rightarrow> (Return val, s))"
  have ih: "reads_only s (snd inner)"
  proof (cases orig)
    case None
    then show ?thesis by (simp add: inner_def reads_only_refl)
  next
    case (Some q)
    then show ?thesis using Reactive[of q s] by (simp add: inner_def reads_only_refl)
  qed
  obtain c s1 where i: "inner = (c, s1)" by (cases inner)
  have h1: "reads_only s s1" using ih i by simp
  have eq: "call_getter n (Reactive d val childOb orig cs sh cf) s =
     (case (c, s1) of
        (Throw x, s1) \<Rightarrow> (Throw x, s1)
      | (Return v, s1) \<Rightarrow>
          (case dep_target s1 of
             TWatcher w \<Rightarrow>
               (let s2 = depend d s1
                in case childOb of
                     Some b \<Rightarrow>
                       (let s3 = depend (ob_dep (observers s2 b)) s2
                        in case v of
                             Object r \<Rightarrow>
                               if klass (heap s3 r) = ArrayObject then
                                 (case dependArray n (items (heap s3 r)) s3 of
                                    (Throw x, s4) \<Rightarrow> (Throw x, s4)
                                  | (Return u, s4) \<Rightarrow> (Return v, s4))
                               else (Return v, s3)
                           | _ \<Rightarrow> (Return v, s3))
                   | None \<Rightarrow> (Return v, s2))
           | _ \<Rightarrow> (Return v, s1)))"
    by (simp only: call_getter.simps inner_def[symmetric] i)
  have h2: "reads_only s (depend d s1)"
    by (rule reads_only_trans[OF h1 depend_reads_only])
  have h3: "reads_only s (depend d' (depend d s1))" for d'
    by (rule reads_only_trans[OF h2 depend_reads_only])
  have da: "reads_only s t'"
    if "dependArray n es (depend d' (depend d s1)) = (x, t')" for es x t' d'
    using reads_only_trans[OF h3 dependArray_reads_only[of "depend d' (depend d s1)" n es]] that
    by simp
  show ?case
    unfolding eq using h1 h2 h3
    by (auto simp: Let_def dest!: da split: completion.split target.split
          option.split jsval.split prod.split)
qed

lemma keeps_new_Dep: "keeps s (snd (new_Dep s))"
  by (simp add: keeps_def new_Dep_def)

lemma keeps_props: "keeps s (upd_object obj (\<lambda>x. x\<lparr>props := f x\<rparr>) s)"
  by (simp add: keeps_def upd_object_def)

lemma defineReactive_step_keeps:
  assumes "\<And>v t. keeps t (snd (obs v t))"
  shows "keeps s (snd (defineReactive_step obs n obj k val cs sh s))"
proof -
  define s1 where "s1 = s\<lparr>dep_uid := dep_uid s + 1, subs := (subs s)(dep_uid s := [])\<rparr>"
  have nd: "new_Dep s = (dep_uid s, s1)" by (simp add: new_Dep_def s1_def)
  have k1: "keeps s s1" by (simp add: keeps_def s1_def)
  define property where "property = getOwnPropertyDescriptor obj k s1"
  define rd where "rd = (if (\<not> has_getter property \<or> has_setter property) \<and> val = None
                  then read n obj k s1
                  else (Return (case val of Some x \<Rightarrow> x | None \<Rightarrow> Undefined), s1))"
  have k2: "keeps s1 (snd rd)"
    by (simp add: rd_def keeps_refl keeps_heap read_heap)
  have eq: "defineReactive_step obs n obj k val cs sh s =
      (if (case property of Some p \<Rightarrow> \<not> configurable p | None \<Rightarrow> False) then (Return (), s1)
         else
           (case rd of
              (Throw x, s2) \<Rightarrow> (Throw x, s2)
            | (Return v, s2) \<Rightarrow>
                (case (if sh then (Return None, s2) else obs v s2) of
                   (Throw x, s3) \<Rightarrow> (Throw x, s3)
                 | (Return childOb, s3) \<Rightarrow>
                     if getOwnPropertyDescriptor obj k s3 = None \<and> \<not> extensible (heap s3 obj)
                     then (Throw TypeError, s3)
                     else (Return (),
                           upd_object obj
                             (\<lambda>x. x\<lparr>props :=
                                put k (Reactive (dep_uid s) v childOb
                                         (if has_getter property \<or> has_setter property
                                          then property else None)
                                         cs sh True)
                                    (props x)\<rparr>) s3))))"
    unfolding defineReactive_step_def nd Let_def split_conv property_def rd_def ..
  obtain c s2 where r: "rd = (c, s2)" by (cases rd)
  have k12: "keeps s s2" using k1 k2 r by (auto intro: keeps_trans)
  show ?thesis
  proof (cases "case property of Some p \<Rightarrow> \<not> configurable p | None \<Rightarrow> False")
    case True
    then show ?thesis unfolding eq using k1 by simp
  next
    case False
    show ?thesis
    proof (cases c)
      case (Throw x)
      then show ?thesis unfolding eq using False r k12 by simp
    next
      case (Return v)
      obtain c3 s3 where o: "(if sh then (Return None, s2) else obs v s2) = (c3, s3)"
        by (cases "if sh then (Return None, s2) else obs v s2")
      have "keeps s2 s3" using o assms[of s2 v] by (cases sh) (auto simp: keeps_refl)
      with k12 have k3: "keeps s s3" by (rule keeps_trans)
      show ?thesis
      proof (cases c3)
        case (Throw x)
        then show ?thesis unfolding eq using False r Return o k3 by simp
      next
        case (Return b)
        have "keeps s3 (upd_object obj (\<lambda>x. x\<lparr>props := f x\<rparr>) s3)" for f
          by (rule keeps_props)
        with k3 have "keeps s (upd_object obj (\<lambda>x. x\<lparr>props := f x\<rparr>) s3)" for f
          by (rule keeps_trans)
        then show ?thesis
          unfolding eq using False r \<open>c = Return v\<close> o Return k3 by simp
      qed
    qed
  qed
qed

lemma def_ob_marks:
  assumes "ob (heap s r) = None"
  shows "keeps s (snd (def_ob r b s)) \<and>
         (fst (def_ob r b s) = Return () \<longrightarrow> ob (heap (snd (def_ob r b s)) r) = Some b)"
  using assms by (auto simp: def_ob_def Let_def keeps_def upd_object_def)

lemma Observer_step_marks:
  assumes obs: "\<And>v t. keeps t (snd (obs v t))"
    and un: "ob (heap s r) = None"
  shows "keeps s (snd (Observer_step obs n r s)) \<and>
         (\<forall>b. fst (Observer_step obs n r s) = Return b \<longrightarrow>
              ob (heap (snd (Observer_step obs n r s)) r) = Some b)"
proof -
  define b where "b = observer_uid s"
  define s1 where "s1 = s\<lparr>dep_uid := dep_uid s + 1, subs := (subs s)(dep_uid s := [])\<rparr>"
  have nd: "new_Dep s = (dep_uid s, s1)" by (simp add: new_Dep_def s1_def)
  define s2 where "s2 = s1\<lparr>observer_uid := b + 1,
         observers := (observers s1)(b := \<lparr>ob_value = r, ob_dep = dep_uid s, vmCount = 0\<rparr>)\<rparr>"
  have k2: "keeps s s2" by (simp add: keeps_def s2_def s1_def)
  have u2: "ob (heap s2 r) = None" using un by (simp add: s2_def s1_def)
  obtain c0 s3 where d: "def_ob r b s2 = (c0, s3)" by (cases "def_ob r b s2")
  have k23: "keeps s2 s3" and m3: "c0 = Return () \<longrightarrow> ob (heap s3 r) = Some b"
    using def_ob_marks[OF u2, of b] d by simp_all
  have k3: "keeps s s3" using k2 k23 by (rule keeps_trans)
  define loop where "loop = (if klass (heap s3 r) = ArrayObject
               then for_each obs (items (heap s3 r)) s3
               else for_each (\<lambda>k. defineReactive_step obs n r k None False False)
                      (map fst (props (heap s3 r))) s3)"
  have eq: "Observer_step obs n r s =
      (case c0 of
         Throw x \<Rightarrow> (Throw x, s3)
       | Return u0 \<Rightarrow>
           (case loop of (Throw x, s4) \<Rightarrow> (Throw x, s4) | (Return u, s4) \<Rightarrow> (Return b, s4)))"
    unfolding Observer_step_def nd Let_def split_conv loop_def
      s2_def[symmetric] b_def[symmetric] d
    by (cases c0) simp_all
  have kl: "keeps s3 (snd loop)"
    unfolding loop_def
    by (auto intro!: for_each_keeps obs defineReactive_step_keeps)
  obtain c s4 where l: "loop = (c, s4)" by (cases loop)
  have k4: "keeps s3 s4" using kl l by simp
  have ks: "keeps s s4" using k3 k4 by (rule keeps_trans)
  show ?thesis
  proof (cases c0)
    case (Throw x)
    then show ?thesis unfolding eq using k3 by simp
  next
    case (Return u0)
    then have "ob (heap s3 r) = Some b" using m3 by simp
    then have m4: "ob (heap s4 r) = Some b" using k4 by (simp add: keeps_def)
    show ?thesis unfolding eq l using Return ks m4 by (cases c) auto
  qed
qed

lemma observe_step_marks:
  assumes ctor: "\<And>r t. ob (heap t r) = None \<Longrightarrow>
      keeps t (snd (ctor r t)) \<and>
      (\<forall>b. fst (ctor r t) = Return b \<longrightarrow> ob (heap (snd (ctor r t)) r) = Some b)"
  shows "keeps s (snd (observe_step ctor en val a s)) \<and>
         (\<forall>r b. val = Object r \<and> fst (observe_step ctor en val a s) = Return (Some b) \<longrightarrow>
              ob (heap (snd (observe_step ctor en val a s)) r) = Some b)"
proof (cases val)
  case (Object r)
  show ?thesis
  proof (cases "klass (heap s r) = VNodeObject")
    case True
    then show ?thesis using Object by (simp add: observe_step_def keeps_refl)
  next
    case False
    note nv = this
    show ?thesis
    proof (cases "ob (heap s r)")
      case (Some b)
      then show ?thesis using Object nv
        by (auto simp: observe_step_def keeps_def)
    next
      case None
      show ?thesis
      proof (cases "shouldObserve s \<and> \<not> serverRendering en \<and>
                          (klass (heap s r) = ArrayObject \<or> klass (heap s r) = PlainObject) \<and>
                          extensible (heap s r) \<and> \<not> isVue (heap s r)")
        case True
        obtain c s1 where e: "ctor r s = (c, s1)" by (cases "ctor r s")
        have k: "keeps s s1" and m: "\<forall>b. c = Return b \<longrightarrow> ob (heap s1 r) = Some b"
          using ctor[OF None] e by simp_all
        have eq: "observe_step ctor en val a s =
           (case c of Throw x \<Rightarrow> (Throw x, s1)
            | Return b \<Rightarrow> (Return (Some b),
                 if a then s1\<lparr>observers :=
                         (observers s1)(b := (observers s1 b)\<lparr>vmCount := vmCount (observers s1 b) + 1\<rparr>)\<rparr>
                 else s1))"
          using Object nv None True e by (cases c) (simp_all add: observe_step_def)
        show ?thesis
          unfolding eq using k m Object by (cases c) (auto simp: keeps_def)
      next
        case False
        then show ?thesis using Object nv None
          by (auto simp: observe_step_def keeps_refl)
      qed
    qed
  qed
qed (simp_all add: observe_step_def keeps_refl)

lemma observe_marks:
  "keeps s (snd (observe n en val a s)) \<and>
   (\<forall>r b. val = Object r \<and> fst (observe n en val a s) = Return (Some b) \<longrightarrow>
        ob (heap (snd (observe n en val a s)) r) = Some b)"
proof (induction n arbitrary: s val a)
  case 0
  show ?case
    unfolding observe.simps
    by (rule observe_step_marks) (simp add: keeps_refl)
next
  case (Suc n)
  have obs: "keeps t (snd (observe n en v False t))" for v t using Suc by blast
  show ?case
    unfolding observe.simps
    by (rule observe_step_marks) (rule Observer_step_marks, rule obs)
qed

lemma observe_twice:
  assumes "observe n en (Object r) a s = (Return (Some b), s')"
  shows "ob (heap s' r) = Some b \<and> observe m en (Object r) False s' = (Return (Some b), s')"
proof -
  have k: "keeps s s'" and mk: "ob (heap s' r) = Some b"
    using observe_marks[of s n en "Object r" a] assms by simp_all
  have "klass (heap s r) \<noteq> VNodeObject"
  proof
    assume "klass (heap s r) = VNodeObject"
    then have "observe n en (Object r) a s = (Return None, s)" by (rule observe_VNode)
    with assms show False by simp
  qed
  then have "klass (heap s' r) \<noteq> VNodeObject" using k by (simp add: keeps_def)
  then show ?thesis using mk by (simp add: observe_marked)
qed

lemma new_Dep_simps:
  "fst (new_Dep s) = dep_uid s"
  "heap (snd (new_Dep s)) = heap s"
  "reports (snd (new_Dep s)) = reports s"
  "notified (snd (new_Dep s)) = notified s"
  "queue (snd (new_Dep s)) = queue s"
  "watchers (snd (new_Dep s)) = watchers s"
  "dep_target (snd (new_Dep s)) = dep_target s"
  "observers (snd (new_Dep s)) = observers s"
  "dep_uid (snd (new_Dep s)) = dep_uid s + 1"
  "subs (snd (new_Dep s)) = (subs s)(dep_uid s := [])"
  by (simp_all add: new_Dep_def)

lemma descriptor_heap:
  "heap s' = heap s \<Longrightarrow> getOwnPropertyDescriptor obj k s' = getOwnPropertyDescriptor obj k s"
  by (simp add: getOwnPropertyDescriptor_def split: option.split)

lemma descriptor_new_Dep:
  "getOwnPropertyDescriptor obj k (snd (new_Dep s)) = getOwnPropertyDescriptor obj k s"
  by (rule descriptor_heap) (simp add: new_Dep_simps)

lemma defineReactive_fixed:
  assumes "getOwnPropertyDescriptor obj k s = Some p" "\<not> configurable p"
  shows "defineReactive n en obj k val cs sh s = (Return (), snd (new_Dep s))"
  using assms descriptor_new_Dep[of obj k s]
  by (simp add: defineReactive_def defineReactive_step_def Let_def split_beta)

text \<open>A property that is not one of \<open>defineReactive\<close>.\<close>

lemma plain_cases:
  "\<forall>d v b q cs sh c. p \<noteq> Reactive d v b q cs sh c \<Longrightarrow>
     (\<exists>v w c. p = Data v w c) \<or> (\<exists>g st slot c. p = Accessor g st slot c)"
  by (cases p) auto

lemma descriptor_cases:
  "getOwnPropertyDescriptor obj k s = Some p \<Longrightarrow>
     map_of (props (heap s obj)) k = Some p \<or>
     (map_of (props (heap s obj)) k = None \<and> array_own k (heap s obj) = Some p)"
  by (auto simp: getOwnPropertyDescriptor_def split: option.splits)

lemma array_own_Data:
  "array_own k x = Some p \<Longrightarrow> \<exists>v w c. p = Data v w c"
  by (auto simp: array_own_def split: if_splits key.splits)

lemma read_plain:
  assumes "getOwnPropertyDescriptor obj k t = Some p"
    and "\<forall>d v b q cs sh c. p \<noteq> Reactive d v b q cs sh c"
  shows "snd (read n obj k t) = t"
  using assms(1) plain_cases[OF assms(2)] by (auto simp: read_def)

lemma upd_prop_frame:
  "notified (upd_prop obj k f s) = notified s"
  "queue (upd_prop obj k f s) = queue s"
  "subs (upd_prop obj k f s) = subs s"
  "watchers (upd_prop obj k f s) = watchers s"
  "reports (upd_prop obj k f s) = reports s"
  "cb_calls (upd_prop obj k f s) = cb_calls s"
  "observers (upd_prop obj k f s) = observers s"
  "dep_target (upd_prop obj k f s) = dep_target s"
  by (simp_all add: upd_prop_def upd_object_def split: option.split)

lemma upd_object_frame:
  "notified (upd_object obj f s) = notified s"
  "queue (upd_object obj f s) = queue s"
  "subs (upd_object obj f s) = subs s"
  "watchers (upd_object obj f s) = watchers s"
  "reports (upd_object obj f s) = reports s"
  "observers (upd_object obj f s) = observers s"
  "dep_target (upd_object obj f s) = dep_target s"
  by (simp_all add: upd_object_def)

lemma assign_plain:
  assumes "getOwnPropertyDescriptor obj k t = Some p"
    and "\<forall>d v b q cs sh c. p \<noteq> Reactive d v b q cs sh c"
  shows "notified (snd (assign n en upd obj k v t)) = notified t"
    and "queue (snd (assign n en upd obj k v t)) = queue t"
    and "subs (snd (assign n en upd obj k v t)) = subs t"
    and "watchers (snd (assign n en upd obj k v t)) = watchers t"
proof -
  have "notified (snd (assign n en upd obj k v t)) = notified t \<and>
        queue (snd (assign n en upd obj k v t)) = queue t \<and>
        subs (snd (assign n en upd obj k v t)) = subs t \<and>
        watchers (snd (assign n en upd obj k v t)) = watchers t"
  proof (cases "k = Name ''__ob__'' \<and> ob (heap t obj) \<noteq> None")
    case True
    then show ?thesis by (auto simp: assign_def Let_def upd_object_frame)
  next
    case False
    from descriptor_cases[OF assms(1)] show ?thesis
    proof
      assume m: "map_of (props (heap t obj)) k = Some p"
      from plain_cases[OF assms(2)] show ?thesis
        using False m
        by (auto simp: assign_def Let_def upd_prop_frame setter_simps)
    next
      assume m: "map_of (props (heap t obj)) k = None \<and> array_own k (heap t obj) = Some p"
      then have a: "klass (heap t obj) = ArrayObject"
        by (auto simp: array_own_def split: if_splits)
      show ?thesis
        using False m a
        by (auto simp: assign_def Let_def upd_object_frame split: completion.splits key.splits)
    qed
  qed
  then show "notified (snd (assign n en upd obj k v t)) = notified t"
    and "queue (snd (assign n en upd obj k v t)) = queue t"
    and "subs (snd (assign n en upd obj k v t)) = subs t"
    and "watchers (snd (assign n en upd obj k v t)) = watchers t"
    by simp_all
qed

lemma same_value_NaN: "same_value newVal v \<longleftrightarrow> (newVal \<noteq> NaN \<and> newVal = v) \<or> (newVal = NaN \<and> v = NaN)"
  by (auto simp: same_value_def strict_eq_def)

lemma plain_original_cases:
  "plain_original orig \<Longrightarrow> orig = None \<or> (\<exists>v w c. orig = Some (Data v w c)) \<or>
     (\<exists>g st slot c. orig = Some (Accessor g st slot c))"
  by (cases orig) (auto simp: plain_original_def split: descriptor.splits)

lemma closure_read:
  assumes "plain_original orig"
  shows "(case orig of
            Some q \<Rightarrow> if has_getter (Some q) then call_getter n q s else (Return val, s)
          | None \<Rightarrow> (Return val, s)) = (Return (closure_value val orig), s)"
  using plain_original_cases[OF assms]
  by (auto simp: closure_value_def)

lemma setter_unfold:
  assumes "plain_original orig"
  shows "call_setter n en upd obj k (Reactive d val childOb orig cs sh cf) newVal s =
     (if same_value newVal (closure_value val orig) then (Return (), s)
      else if has_getter orig \<and> \<not> has_setter orig then (Return (), custom_called en cs s)
      else
        (let s3 = upd_prop obj k (if has_setter orig then in_accessor (\<lambda>x. newVal)
                                  else in_closure d (set_val newVal)) (custom_called en cs s)
         in case (if sh then (Return None, s3) else observe n en newVal False s3) of
              (Throw x, s4) \<Rightarrow> (Throw x, s4)
            | (Return b, s4) \<Rightarrow>
                (case notify en upd d (upd_prop obj k (in_closure d (set_childOb b)) s4) of
                   (called, r, s5) \<Rightarrow> (r, s5))))"
proof -
  have rd: "(case orig of
            Some q \<Rightarrow> if has_getter (Some q) then call_getter n q s else (Return val, s)
          | None \<Rightarrow> (Return val, s)) = (Return (closure_value val orig), s)"
    using assms by (rule closure_read)
  have st: "(case orig of
               Some q \<Rightarrow>
                 if has_setter (Some q) then call_setter n en upd obj k q newVal t
                 else (Return (), upd_prop obj k (in_closure d (set_val newVal)) t)
             | None \<Rightarrow> (Return (), upd_prop obj k (in_closure d (set_val newVal)) t)) =
            (Return (), upd_prop obj k (if has_setter orig then in_accessor (\<lambda>x. newVal)
                                  else in_closure d (set_val newVal)) t)" for t
    using plain_original_cases[OF assms] by (auto simp: setter_simps)
  show ?thesis
    unfolding setter_simps rd st
    by (simp add: same_value_def custom_called_def Let_def)
qed

lemma getter_read_reads_only: "reads_only s (snd (getter_read n val orig s))"
  by (simp add: getter_read_def call_getter_reads_only reads_only_refl split: option.split)

lemma getter_read_plain:
  assumes "plain_original orig"
  shows "getter_read n val orig s = (Return (closure_value val orig), s)"
  unfolding getter_read_def using assms by (rule closure_read)

lemma setter_write_plain:
  assumes "plain_original orig"
  shows "setter_write n en upd obj k d orig newVal s =
           (Return (), upd_prop obj k (if has_setter orig then in_accessor (\<lambda>x. newVal)
                                       else in_closure d (set_val newVal)) s)"
  unfolding setter_write_def
  using plain_original_cases[OF assms] by (auto simp: setter_simps)

lemma setter_general:
  "call_setter n en upd obj k (Reactive d val childOb orig cs sh cf) newVal s =
     (case getter_read n val orig s of
        (Throw x, s1) \<Rightarrow> (Throw x, s1)
      | (Return v, s1) \<Rightarrow>
          if same_value newVal v then (Return (), s1)
          else if has_getter orig \<and> \<not> has_setter orig then (Return (), custom_called en cs s1)
          else
            (case setter_write n en upd obj k d orig newVal (custom_called en cs s1) of
               (Throw x, s3) \<Rightarrow> (Throw x, s3)
             | (Return u, s3) \<Rightarrow>
                 (case (if sh then (Return None, s3) else observe n en newVal False s3) of
                    (Throw x, s4) \<Rightarrow> (Throw x, s4)
                  | (Return b, s4) \<Rightarrow>
                      (case notify en upd d (upd_prop obj k (in_closure d (set_childOb b)) s4) of
                         (called, r, s5) \<Rightarrow> (r, s5)))))"
  unfolding setter_simps getter_read_def[symmetric] setter_write_def[symmetric]
    same_value_def[symmetric] custom_called_def[symmetric] Let_def
  by (rule refl)

lemma setter_getter_only:
  assumes "\<not> same_value newVal slot"
  shows "call_setter n en upd obj k (Reactive d val childOb (Some (Accessor True False slot c)) cs sh cf) newVal s =
           (Return (), custom_called en cs s)"
proof -
  have p: "plain_original (Some (Accessor True False slot c))" by (simp add: plain_original_def)
  show ?thesis using assms by (subst setter_unfold[OF p]) (simp add: closure_value_def)
qed

lemma map_of_put: "map_of (put k p ps) k = Some p"
  by (induction ps) auto

lemma map_of_put_other: "k' \<noteq> k \<Longrightarrow> map_of (put k p ps) k' = map_of ps k'"
  by (induction ps) auto

lemma descriptor_upd_prop:
  "map_of (props (heap s obj)) k = Some p \<Longrightarrow>
   getOwnPropertyDescriptor obj k (upd_prop obj k f s) = Some (f p)"
  by (simp add: upd_prop_def getOwnPropertyDescriptor_def upd_object_def map_of_put)

lemma descriptor_Reactive:
  assumes "getOwnPropertyDescriptor obj k s = Some (Reactive d val childOb orig cs sh cf)"
  shows "map_of (props (heap s obj)) k = Some (Reactive d val childOb orig cs sh cf)"
  using descriptor_cases[OF assms] array_own_Data[of k "heap s obj"] by auto

lemma descriptor_custom_called:
  "getOwnPropertyDescriptor obj k (custom_called en cs s) = getOwnPropertyDescriptor obj k s"
  by (rule descriptor_heap) (simp add: custom_called_def warn_def)

lemma custom_called_frame:
  "heap (custom_called en cs s) = heap s"
  "notified (custom_called en cs s) = notified s"
  "queue (custom_called en cs s) = queue s"
  "subs (custom_called en cs s) = subs s"
  "watchers (custom_called en cs s) = watchers s"
  "observers (custom_called en cs s) = observers s"
  "dep_target (custom_called en cs s) = dep_target s"
  "cb_calls (custom_called en cs s) = cb_calls s"
  by (simp_all add: custom_called_def warn_def)












lemma key_in_own:
  assumes "getOwnPropertyDescriptor r k s = Some p"
  shows "key_in k (heap s r)"
  using descriptor_cases[OF assms]
proof
  assume "map_of (props (heap s r)) k = Some p"
  then have "k \<in> fst ` set (props (heap s r))"
    by (metis map_of_eq_None_iff option.distinct(1))
  then show ?thesis by (simp add: key_in_def)
next
  assume "map_of (props (heap s r)) k = None \<and> array_own k (heap s r) = Some p"
  then show ?thesis by (simp add: key_in_def)
qed




lemma set_root:
  assumes "\<not> (klass (heap s r) = ArrayObject \<and> isValidArrayIndex k)"
    and "\<not> (key_in k (heap s r) \<and> k \<notin> set object_prototype)"
    and "ob (heap s r) = Some b" "isVue (heap s r) \<or> vmCount (observers s b) \<noteq> 0"
  shows "set_api n en upd (Object r) k val s =
           (Return val,
            if production en then s
            else warn ''Avoid adding reactive properties to a Vue instance or its root $data'' s)"
  using assms by (auto simp add: set_api_def isUndef_def isPrimitive_def)





lemma assign_Reactive:
  assumes "\<not> (k = Name ''__ob__'' \<and> ob (heap s obj) \<noteq> None)"
    and "map_of (props (heap s obj)) k = Some (Reactive d val b orig cs sh cf)"
  shows "assign n en upd obj k v s =
           call_setter n en upd obj k (Reactive d val b orig cs sh cf) v s"
  using assms by (auto simp: assign_def Let_def)

lemmas obs_defs =
  observe_step_def Observer_step_def def_ob_def defineReactive_step_def new_Dep_def
  upd_object_def getOwnPropertyDescriptor_def array_own_def read_def isVue_def own_value_def
  truthy_def Let_def init_state_def blank_object_def development_sync_def numeral_2_eq_2
  observe.simps

lemma first_observe:
  "observe 1 development_sync (Object 0) False with_object = (Return (Some 0), observed_object)"
  by (simp add: obs_defs with_object_def observed_object_def)

lemma observed_object_facts:
  "klass (heap observed_object 0) = PlainObject"
  "ob (heap observed_object 0) = Some 0"
  "shouldObserve observed_object"
  "getOwnPropertyDescriptor 0 (Name ''a'') observed_object =
     Some (Reactive 1 (Number 1) None None False False True)"
  "\<not> isVue (heap observed_object 0)"
  "vmCount (observers observed_object 0) = 0"
  "ob_value (observers observed_object 0) = 0"
  "ob_dep (observers observed_object 0) = 0"
  "props (heap observed_object 0) = [(Name ''a'', Reactive 1 (Number 1) None None False False True)]"
  "inherited (heap observed_object 0) = object_prototype"
  "notified observed_object = []"
  "reports observed_object = []"
  by (simp_all add: observed_object_def init_state_def blank_object_def
        getOwnPropertyDescriptor_def isVue_def own_value_def truthy_def)

lemma define_on_getter:
  "defineReactive 1 development_sync 0 (Name ''a'') None False False with_getter =
     (Return (), getter_only)"
  by (simp add: defineReactive_def obs_defs with_getter_def getter_only_def)

lemma getter_only_facts:
  "getOwnPropertyDescriptor 0 (Name ''a'') getter_only =
     Some (Reactive 0 Undefined None (Some (Accessor True False (Number 1) True)) False False True)"
  "notified getter_only = []"
  "reports getter_only = []"
  "dep_target getter_only = TNull"
  "map_of (props (heap getter_only 0)) (Name ''a'') =
     Some (Reactive 0 Undefined None (Some (Accessor True False (Number 1) True)) False False True)"
  "ob (heap getter_only 0) = None"
  by (simp_all add: getter_only_def init_state_def blank_object_def getOwnPropertyDescriptor_def)

lemma with_sealed_facts:
  "getOwnPropertyDescriptor 0 (Name ''a'') with_sealed = Some (Data (Number 1) True False)"
  "notified with_sealed = []"
  "\<not> extensible (heap with_sealed 0)"
  by (simp_all add: with_sealed_def init_state_def blank_object_def getOwnPropertyDescriptor_def)

lemma store_in_closure:
  assumes "getOwnPropertyDescriptor obj k s = Some (Reactive d val childOb orig cs sh cf)"
  shows "getOwnPropertyDescriptor obj k
           (upd_prop obj k (in_closure d (set_val newVal)) (custom_called en cs s)) =
         Some (Reactive d newVal childOb orig cs sh cf)"
proof -
  have "getOwnPropertyDescriptor obj k (custom_called en cs s) =
          Some (Reactive d val childOb orig cs sh cf)"
    using assms by (simp add: descriptor_custom_called)
  from descriptor_upd_prop[OF descriptor_Reactive[OF this]] show ?thesis by simp
qed

lemma store_in_accessor:
  assumes "getOwnPropertyDescriptor obj k s =
             Some (Reactive d val childOb (Some (Accessor g st slot c)) cs sh cf)"
  shows "getOwnPropertyDescriptor obj k
           (upd_prop obj k (in_accessor (\<lambda>x. newVal)) (custom_called en cs s)) =
         Some (Reactive d val childOb (Some (Accessor g st newVal c)) cs sh cf)"
proof -
  have "getOwnPropertyDescriptor obj k (custom_called en cs s) =
          Some (Reactive d val childOb (Some (Accessor g st slot c)) cs sh cf)"
    using assms by (simp add: descriptor_custom_called)
  from descriptor_upd_prop[OF descriptor_Reactive[OF this]] show ?thesis by simp
qed

lemma write_observed:
  "call_setter 1 development_sync no_update 0 (Name ''a'')
     (Reactive 1 (Number 1) None None False False True) (Number 2) observed_object =
   (Return (),
    observed_object\<lparr>notified := [1],
      heap := (heap observed_object)
        (0 := (heap observed_object 0)
           \<lparr>props := [(Name ''a'', Reactive 1 (Number 2) None None False False True)]\<rparr>)\<rparr>)"
  by (simp add: setter_simps strict_eq_def warn_def upd_prop_def notify_def no_update_def
        observed_object_def obs_defs)

lemma write_getter_only:
  "assign 1 production_async no_update 0 (Name ''a'') (Number 2) getter_only =
     (Return (), getter_only)"
proof -
  have d: "\<not> same_value (Number 2) (Number 1)" by (simp add: same_value_def strict_eq_def)
  have c: "custom_called production_async False getter_only = getter_only"
    by (simp add: custom_called_def)
  have "assign 1 production_async no_update 0 (Name ''a'') (Number 2) getter_only =
          call_setter 1 production_async no_update 0 (Name ''a'')
            (Reactive 0 Undefined None (Some (Accessor True False (Number 1) True))
               False False True) (Number 2) getter_only"
    by (rule assign_Reactive) (simp_all add: getter_only_facts)
  then show ?thesis
    using setter_getter_only[OF d, of 1 production_async no_update 0 "Name ''a''" 0 Undefined
            None True False False True getter_only]
    by (simp only: c)
qed


lemma watching_read:
  "getter_read 1 Undefined (Some (Reactive 5 (Number 1) None None False False True)) watching =
     (Return (Number 1), depend 5 watching)"
  by (simp add: getter_read_def watching_def)

lemma watching_subs: "subs (depend 5 watching) 5 = [1]"
  by (simp add: depend_def addDep_def addSub_def upd_watcher_def Let_def watching_def
        observed_object_def init_state_def blank_watcher_def)

lemmas con_defs =
  sealed_object_def sealed_watching_def observed_object_def observed_named_def with_named_def
  with_array_def observed_array_def with_sealed_def init_state_def blank_object_def
  production_async_def


lemma define_on_sealed:
  "defineReactive 1 development_sync 0 (Name ''a'') None False False sealed_watching =
     (Return (), sealed_watching\<lparr>dep_uid := 3, subs := (subs sealed_watching)(2 := [])\<rparr>)"
  by (simp add: defineReactive_def obs_defs con_defs)

lemma read_sealed:
  "read 1 0 (Name ''a'')
     (sealed_watching\<lparr>dep_uid := 3, subs := (subs sealed_watching)(2 := [])\<rparr>) =
   (Return (Number 1),
    depend 1 (sealed_watching\<lparr>dep_uid := 3, subs := (subs sealed_watching)(2 := [])\<rparr>))"
  by (simp add: read_def getOwnPropertyDescriptor_def con_defs)

lemma read_sealed_subs:
  "subs (sealed_watching\<lparr>dep_uid := 3, subs := (subs sealed_watching)(2 := [])\<rparr>) 1 = []"
  "subs (depend 1 (sealed_watching\<lparr>dep_uid := 3, subs := (subs sealed_watching)(2 := [])\<rparr>)) 1
     = [1]"
  by (simp_all add: depend_def addDep_def addSub_def upd_watcher_def Let_def con_defs
        blank_watcher_def)

lemma write_sealed:
  "notified (snd (assign 1 development_sync no_update 0 (Name ''a'') (Number 2)
     (sealed_watching\<lparr>dep_uid := 3, subs := (subs sealed_watching)(2 := [])\<rparr>))) = [1]"
  by (simp add: assign_def setter_simps strict_eq_def warn_def upd_prop_def notify_def
        no_update_def con_defs obs_defs)


lemma observe_named:
  "observe 1 development_sync (Object 0) False with_named = (Return (Some 0), observed_named)"
  by (simp add: obs_defs con_defs)





lemma observe_array:
  "observe 1 development_sync (Object 0) False with_array = (Return (Some 0), observed_array)"
  by (simp add: obs_defs con_defs)





lemma write_with_sealed:
  "assign 1 development_sync no_update 0 (Name ''a'') (Number 2) with_sealed =
     (Return (),
      with_sealed\<lparr>heap := (heap with_sealed)
         (0 := (heap with_sealed 0)\<lparr>props := [(Name ''a'', Data (Number 2) True False)]\<rparr>)\<rparr>)"
  by (simp add: assign_def upd_prop_def con_defs obs_defs)


section \<open>The claims about the observer\<close>

text \<open>
  C5, as amended. \<open>observe\<close> of a value that carries an Observer returns that Observer
  and leaves the state as it is: no Observer and no Dep is made. When \<open>observe\<close>
  returns an Observer, the value carries it afterwards, so that a second \<open>observe\<close>
  returns the same one and changes nothing. It returns
  \<open>undefined\<close>, and changes nothing, for a value that is not an object or is a VNode,
  and for an object that carries no Observer when observing is switched off, on the
  server, when the object is neither an array nor a plain object, is not extensible,
  or is a Vue instance.
\<close>

theorem observe_returns_marker:
  "(\<forall>r b. val = Object r \<and> klass (heap s r) \<noteq> VNodeObject \<and> ob (heap s r) = Some b \<longrightarrow>
      observe n en val False s = (Return (Some b), s)) \<and>
   (\<forall>r b s'. val = Object r \<and> observe n en val asRootData s = (Return (Some b), s') \<longrightarrow>
      ob (heap s' r) = Some b \<and> observe m en val False s' = (Return (Some b), s')) \<and>
   (\<not> isObject val \<longrightarrow> observe n en val asRootData s = (Return None, s)) \<and>
   (\<forall>r. val = Object r \<and> klass (heap s r) = VNodeObject \<longrightarrow>
      observe n en val asRootData s = (Return None, s)) \<and>
   (\<forall>r. val = Object r \<and> ob (heap s r) = None \<and>
        (\<not> shouldObserve s \<or> serverRendering en \<or>
         (klass (heap s r) \<noteq> ArrayObject \<and> klass (heap s r) \<noteq> PlainObject) \<or>
         \<not> extensible (heap s r) \<or> isVue (heap s r)) \<longrightarrow>
      observe n en val asRootData s = (Return None, s))"
proof -
  have a: "\<forall>r b. val = Object r \<and> klass (heap s r) \<noteq> VNodeObject \<and> ob (heap s r) = Some b \<longrightarrow>
      observe n en val False s = (Return (Some b), s)"
    by (simp add: observe_marked)
  have b: "\<forall>r b s'. val = Object r \<and> observe n en val asRootData s = (Return (Some b), s') \<longrightarrow>
      ob (heap s' r) = Some b \<and> observe m en val False s' = (Return (Some b), s')"
    using observe_twice by blast
  have c: "\<not> isObject val \<longrightarrow> observe n en val asRootData s = (Return None, s)"
    by (simp add: observe_not_object)
  have d: "\<forall>r. val = Object r \<and> klass (heap s r) = VNodeObject \<longrightarrow>
      observe n en val asRootData s = (Return None, s)"
    by (simp add: observe_VNode)
  have e: "\<forall>r. val = Object r \<and> ob (heap s r) = None \<and>
        (\<not> shouldObserve s \<or> serverRendering en \<or>
         (klass (heap s r) \<noteq> ArrayObject \<and> klass (heap s r) \<noteq> PlainObject) \<or>
         \<not> extensible (heap s r) \<or> isVue (heap s r)) \<longrightarrow>
      observe n en val asRootData s = (Return None, s)"
    using observe_excluded by blast
  from a b c d e show ?thesis by (intro conjI)
qed

theorem observe_returns_marker_witness:
  "klass (heap observed_object 0) \<noteq> VNodeObject \<and> ob (heap observed_object 0) = Some 0 \<and>
   observe 1 development_sync (Object 0) False with_object = (Return (Some 0), observed_object) \<and>
   observe 3 development_sync (Object 0) False observed_object = (Return (Some 0), observed_object) \<and>
   \<not> isObject (Number 3) \<and>
   observe 3 development_sync (Number 3) False observed_object = (Return None, observed_object)"
proof -
  have k: "klass (heap observed_object 0) \<noteq> VNodeObject" by (simp add: observed_object_facts)
  have o: "ob (heap observed_object 0) = Some 0" by (simp add: observed_object_facts)
  have n: "\<not> isObject (Number 3)" by (simp add: isObject_def)
  show ?thesis
    using observe_returns_marker[where val = "Object 0" and s = observed_object and n = 3
            and en = development_sync and asRootData = False and m = 3]
      observe_returns_marker[where val = "Number 3" and s = observed_object and n = 3
            and en = development_sync and asRootData = False and m = 3]
      observe_returns_marker[where val = "Object 0" and s = with_object and n = 1
            and en = development_sync and asRootData = False and m = 3]
      k o n first_observe
    by blast
qed

text \<open>
  C5 as stated fails: with observing switched off, \<open>observe\<close> of the object of
  \<open>observed_object\<close>, which carries Observer 0, returns that Observer and not
  \<open>undefined\<close>.
\<close>

theorem observe_marked_while_disabled_counterexample:
  "\<not> shouldObserve (observed_object\<lparr>shouldObserve := False\<rparr>) \<and>
   fst (observe 3 development_sync (Object 0) False (observed_object\<lparr>shouldObserve := False\<rparr>)) =
     Return (Some 0)"
proof -
  have "klass (heap (observed_object\<lparr>shouldObserve := False\<rparr>) 0) \<noteq> VNodeObject"
    "ob (heap (observed_object\<lparr>shouldObserve := False\<rparr>) 0) = Some 0"
    by (simp_all add: observed_object_facts)
  then show ?thesis by (simp add: observe_marked)
qed

text \<open>
  C9, as amended. \<open>defineReactive\<close> on a key whose own property is not configurable
  returns at once: it only draws the id of the Dep it made, the heap and the
  reports stay as they are, and the property is what it was. When that property
  is not one of \<open>defineReactive\<close>, then in any state that has it, reading it changes
  nothing (no Dep is touched) and assigning to it enters no \<open>notify()\<close> and leaves
  every subscriber list, watcher and the queue alone.
\<close>

theorem defineReactive_keeps_fixed:
  assumes "getOwnPropertyDescriptor obj k s = Some p" and "\<not> configurable p"
  shows "defineReactive n en obj k val cs sh s = (Return (), snd (new_Dep s)) \<and>
         heap (snd (new_Dep s)) = heap s \<and> reports (snd (new_Dep s)) = reports s \<and>
         getOwnPropertyDescriptor obj k (snd (new_Dep s)) = Some p \<and>
         ((\<forall>d x b q c1 c2 c3. p \<noteq> Reactive d x b q c1 c2 c3) \<longrightarrow>
          (\<forall>t m v upd. getOwnPropertyDescriptor obj k t = Some p \<longrightarrow>
             snd (read m obj k t) = t \<and>
             notified (snd (assign m en upd obj k v t)) = notified t \<and>
             queue (snd (assign m en upd obj k v t)) = queue t \<and>
             subs (snd (assign m en upd obj k v t)) = subs t \<and>
             watchers (snd (assign m en upd obj k v t)) = watchers t))"
proof -
  have a: "defineReactive n en obj k val cs sh s = (Return (), snd (new_Dep s))"
    using assms by (rule defineReactive_fixed)
  have b: "heap (snd (new_Dep s)) = heap s" "reports (snd (new_Dep s)) = reports s"
    by (simp_all add: new_Dep_simps)
  have c: "getOwnPropertyDescriptor obj k (snd (new_Dep s)) = Some p"
    using assms(1) by (simp add: descriptor_new_Dep)
  have d: "(\<forall>d x b q c1 c2 c3. p \<noteq> Reactive d x b q c1 c2 c3) \<longrightarrow>
          (\<forall>t m v upd. getOwnPropertyDescriptor obj k t = Some p \<longrightarrow>
             snd (read m obj k t) = t \<and>
             notified (snd (assign m en upd obj k v t)) = notified t \<and>
             queue (snd (assign m en upd obj k v t)) = queue t \<and>
             subs (snd (assign m en upd obj k v t)) = subs t \<and>
             watchers (snd (assign m en upd obj k v t)) = watchers t)"
  proof (intro impI allI)
    fix t m v upd
    assume pl: "\<forall>d x b q c1 c2 c3. p \<noteq> Reactive d x b q c1 c2 c3"
      and g: "getOwnPropertyDescriptor obj k t = Some p"
    show "snd (read m obj k t) = t \<and>
             notified (snd (assign m en upd obj k v t)) = notified t \<and>
             queue (snd (assign m en upd obj k v t)) = queue t \<and>
             subs (snd (assign m en upd obj k v t)) = subs t \<and>
             watchers (snd (assign m en upd obj k v t)) = watchers t"
      using read_plain[OF g pl] assign_plain[OF g pl] by simp
  qed
  from a b c d show ?thesis by (intro conjI)
qed

theorem defineReactive_keeps_fixed_witness:
  "getOwnPropertyDescriptor 0 (Name ''a'') with_sealed = Some (Data (Number 1) True False) \<and>
   \<not> configurable (Data (Number 1) True False) \<and>
   defineReactive 1 development_sync 0 (Name ''a'') None False False with_sealed =
     (Return (), snd (new_Dep with_sealed)) \<and>
   heap (snd (new_Dep with_sealed)) = heap with_sealed \<and>
   snd (read 1 0 (Name ''a'') with_sealed) = with_sealed \<and>
   fst (assign 1 development_sync no_update 0 (Name ''a'') (Number 2) with_sealed) = Return () \<and>
   getOwnPropertyDescriptor 0 (Name ''a'')
     (snd (assign 1 development_sync no_update 0 (Name ''a'') (Number 2) with_sealed)) =
     Some (Data (Number 2) True False) \<and>
   notified (snd (assign 1 development_sync no_update 0 (Name ''a'') (Number 2) with_sealed)) = []"
proof -
  have g: "getOwnPropertyDescriptor 0 (Name ''a'') with_sealed = Some (Data (Number 1) True False)"
    by (rule with_sealed_facts)
  have f: "\<not> configurable (Data (Number 1) True False)" by simp
  have pl: "\<forall>d x b q c1 c2 c3. Data (Number 1) True False \<noteq> Reactive d x b q c1 c2 c3" by simp
  have w: "fst (assign 1 development_sync no_update 0 (Name ''a'') (Number 2) with_sealed) =
             Return ()"
    "getOwnPropertyDescriptor 0 (Name ''a'')
       (snd (assign 1 development_sync no_update 0 (Name ''a'') (Number 2) with_sealed)) =
       Some (Data (Number 2) True False)"
    unfolding write_with_sealed fst_conv snd_conv
    by (simp_all add: getOwnPropertyDescriptor_def)
  note t = defineReactive_keeps_fixed[OF g f, of 1 development_sync None False False]
  have n: "notified (snd (assign 1 development_sync no_update 0 (Name ''a'') (Number 2)
             with_sealed)) = []"
    using t pl g with_sealed_facts(2) by simp
  have r: "snd (read 1 0 (Name ''a'') with_sealed) = with_sealed"
    using t pl g by blast
  show ?thesis using t g f w n r by (intro conjI) blast+
qed

text \<open>
  C9 as stated fails: \<open>a\<close> of \<open>sealed_watching\<close> was made reactive before the object was
  sealed. \<open>defineReactive\<close> returns at once and leaves the property as it is, yet
  in the state it leaves a read of \<open>a\<close> subscribes the watcher to Dep 1 and a write
  enters \<open>notify()\<close> on Dep 1.
\<close>

theorem sealed_stays_reactive_counterexample:
  "getOwnPropertyDescriptor 0 (Name ''a'') sealed_watching =
     Some (Reactive 1 (Number 1) None None False False False) \<and>
   \<not> configurable (Reactive 1 (Number 1) None None False False False) \<and>
   fst (defineReactive 1 development_sync 0 (Name ''a'') None False False sealed_watching) =
     Return () \<and>
   getOwnPropertyDescriptor 0 (Name ''a'')
     (snd (defineReactive 1 development_sync 0 (Name ''a'') None False False sealed_watching)) =
     Some (Reactive 1 (Number 1) None None False False False) \<and>
   subs (snd (defineReactive 1 development_sync 0 (Name ''a'') None False False sealed_watching))
     1 = [] \<and>
   subs (snd (read 1 0 (Name ''a'')
     (snd (defineReactive 1 development_sync 0 (Name ''a'') None False False sealed_watching))))
     1 = [1] \<and>
   notified
     (snd (defineReactive 1 development_sync 0 (Name ''a'') None False False sealed_watching)) =
     [] \<and>
   notified (snd (assign 1 development_sync no_update 0 (Name ''a'') (Number 2)
     (snd (defineReactive 1 development_sync 0 (Name ''a'') None False False sealed_watching)))) =
     [1]"
  unfolding define_on_sealed fst_conv snd_conv read_sealed write_sealed read_sealed_subs
  by (simp add: getOwnPropertyDescriptor_def sealed_watching_def sealed_object_def
        observed_object_def init_state_def blank_object_def)

text \<open>
  C10. The closure of a field that was defined over a getter without a setter:
  a write of a value that is not the current one (by \<open>===\<close>, or both \<open>NaN\<close>) returns
  after the call of the \<open>customSetter\<close>, when there is one and the build is not a
  production build. Nothing else happens: the heap, the subscriber lists, the
  watchers, the queue and the list of the Deps notified are what they were.
\<close>

theorem reactiveSetter_getter_only:
  "\<not> same_value newVal slot \<longrightarrow>
     call_setter n en upd obj k
       (Reactive d val childOb (Some (Accessor True False slot c)) cs sh cf) newVal s =
       (Return (), custom_called en cs s) \<and>
     heap (custom_called en cs s) = heap s \<and>
     notified (custom_called en cs s) = notified s \<and>
     queue (custom_called en cs s) = queue s \<and>
     subs (custom_called en cs s) = subs s \<and>
     watchers (custom_called en cs s) = watchers s \<and>
     observers (custom_called en cs s) = observers s"
  using setter_getter_only[of newVal slot n en upd obj k d val childOb c cs sh cf s]
  by (simp add: custom_called_frame)

theorem reactiveSetter_getter_only_witness:
  "\<not> same_value (Number 2) (Number 1) \<and>
   defineReactive 1 development_sync 0 (Name ''a'') None False False with_getter =
     (Return (), getter_only) \<and>
   getOwnPropertyDescriptor 0 (Name ''a'') getter_only =
     Some (Reactive 0 Undefined None (Some (Accessor True False (Number 1) True)) False False True) \<and>
   call_setter 1 development_sync no_update 0 (Name ''a'')
     (Reactive 0 Undefined None (Some (Accessor True False (Number 1) True)) False False True)
     (Number 2) getter_only = (Return (), getter_only)"
proof -
  have d: "\<not> same_value (Number 2) (Number 1)" by (simp add: same_value_def strict_eq_def)
  have c: "custom_called development_sync False getter_only = getter_only"
    by (simp add: custom_called_def)
  show ?thesis
    using reactiveSetter_getter_only[of "Number 2" "Number 1" 1 development_sync no_update 0
            "Name ''a''" 0 Undefined None True False False True getter_only]
      d c define_on_getter getter_only_facts(1)
    by (simp only: simp_thms)
qed

text \<open>
  C2, as amended, for every closure of \<open>defineReactive\<close>. The setter first reads the
  current value, which changes nothing but the subscriptions of the target watcher,
  and a write of that value, by \<open>===\<close>, or of \<open>NaN\<close> over \<open>NaN\<close>, ends there: nothing
  is stored, observed or notified. Any other write first calls the \<open>customSetter\<close>,
  when there is one and the build is not a production build. If the field was
  defined over a getter without a setter, the write ends there. Otherwise the new
  value goes to the original setter when there is one and into \<open>val\<close> when there is
  none, \<open>observe\<close> is called on it unless the field is shallow, its result becomes
  \<open>childOb\<close>, and \<open>notify()\<close> is called on the field's Dep. Over a property that was
  not itself reactive the read changes nothing at all and the store is the one
  update of the heap given last.
\<close>

theorem reactiveSetter_cases:
  "(\<forall>x s1. getter_read n val orig s = (Throw x, s1) \<longrightarrow>
       call_setter n en upd obj k (Reactive d val childOb orig cs sh cf) newVal s = (Throw x, s1)) \<and>
   (\<forall>v s1. getter_read n val orig s = (Return v, s1) \<longrightarrow>
       reads_only s s1 \<and>
       (same_value newVal v \<longrightarrow>
          call_setter n en upd obj k (Reactive d val childOb orig cs sh cf) newVal s =
            (Return (), s1)) \<and>
       (\<not> same_value newVal v \<and> has_getter orig \<and> \<not> has_setter orig \<longrightarrow>
          call_setter n en upd obj k (Reactive d val childOb orig cs sh cf) newVal s =
            (Return (), custom_called en cs s1)) \<and>
       (\<not> same_value newVal v \<and> \<not> (has_getter orig \<and> \<not> has_setter orig) \<longrightarrow>
          call_setter n en upd obj k (Reactive d val childOb orig cs sh cf) newVal s =
            (case setter_write n en upd obj k d orig newVal (custom_called en cs s1) of
               (Throw x, s3) \<Rightarrow> (Throw x, s3)
             | (Return u, s3) \<Rightarrow>
                 (case (if sh then (Return None, s3) else observe n en newVal False s3) of
                    (Throw x, s4) \<Rightarrow> (Throw x, s4)
                  | (Return b, s4) \<Rightarrow>
                      (case notify en upd d (upd_prop obj k (in_closure d (set_childOb b)) s4) of
                         (called, r, s5) \<Rightarrow> (r, s5)))))) \<and>
   (plain_original orig \<longrightarrow>
      getter_read n val orig s = (Return (closure_value val orig), s) \<and>
      setter_write n en upd obj k d orig newVal s =
        (Return (), upd_prop obj k (if has_setter orig then in_accessor (\<lambda>x. newVal)
                                    else in_closure d (set_val newVal)) s)) \<and>
   (getOwnPropertyDescriptor obj k s = Some (Reactive d val childOb orig cs sh cf) \<longrightarrow>
      (\<not> has_setter orig \<longrightarrow>
         getOwnPropertyDescriptor obj k
           (upd_prop obj k (in_closure d (set_val newVal)) (custom_called en cs s)) =
         Some (Reactive d newVal childOb orig cs sh cf)) \<and>
      (\<forall>g slot c. orig = Some (Accessor g True slot c) \<longrightarrow>
         getOwnPropertyDescriptor obj k
           (upd_prop obj k (in_accessor (\<lambda>x. newVal)) (custom_called en cs s)) =
         Some (Reactive d val childOb (Some (Accessor g True newVal c)) cs sh cf)))"
proof -
  note u = setter_general[of n en upd obj k d val childOb orig cs sh cf newVal s]
  have t: "\<forall>x s1. getter_read n val orig s = (Throw x, s1) \<longrightarrow>
       call_setter n en upd obj k (Reactive d val childOb orig cs sh cf) newVal s = (Throw x, s1)"
    by (simp add: u)
  have r: "\<forall>v s1. getter_read n val orig s = (Return v, s1) \<longrightarrow>
       reads_only s s1 \<and>
       (same_value newVal v \<longrightarrow>
          call_setter n en upd obj k (Reactive d val childOb orig cs sh cf) newVal s =
            (Return (), s1)) \<and>
       (\<not> same_value newVal v \<and> has_getter orig \<and> \<not> has_setter orig \<longrightarrow>
          call_setter n en upd obj k (Reactive d val childOb orig cs sh cf) newVal s =
            (Return (), custom_called en cs s1)) \<and>
       (\<not> same_value newVal v \<and> \<not> (has_getter orig \<and> \<not> has_setter orig) \<longrightarrow>
          call_setter n en upd obj k (Reactive d val childOb orig cs sh cf) newVal s =
            (case setter_write n en upd obj k d orig newVal (custom_called en cs s1) of
               (Throw x, s3) \<Rightarrow> (Throw x, s3)
             | (Return u, s3) \<Rightarrow>
                 (case (if sh then (Return None, s3) else observe n en newVal False s3) of
                    (Throw x, s4) \<Rightarrow> (Throw x, s4)
                  | (Return b, s4) \<Rightarrow>
                      (case notify en upd d (upd_prop obj k (in_closure d (set_childOb b)) s4) of
                         (called, r, s5) \<Rightarrow> (r, s5)))))"
  proof (intro allI impI)
    fix v s1
    assume g: "getter_read n val orig s = (Return v, s1)"
    have ro: "reads_only s s1" using getter_read_reads_only[of s n val orig] g by simp
    have u': "call_setter n en upd obj k (Reactive d val childOb orig cs sh cf) newVal s =
       (if same_value newVal v then (Return (), s1)
          else if has_getter orig \<and> \<not> has_setter orig then (Return (), custom_called en cs s1)
          else
            (case setter_write n en upd obj k d orig newVal (custom_called en cs s1) of
               (Throw x, s3) \<Rightarrow> (Throw x, s3)
             | (Return u, s3) \<Rightarrow>
                 (case (if sh then (Return None, s3) else observe n en newVal False s3) of
                    (Throw x, s4) \<Rightarrow> (Throw x, s4)
                  | (Return b, s4) \<Rightarrow>
                      (case notify en upd d (upd_prop obj k (in_closure d (set_childOb b)) s4) of
                         (called, r, s5) \<Rightarrow> (r, s5)))))"
      by (simp only: u g prod.case completion.case)
    show "reads_only s s1 \<and>
       (same_value newVal v \<longrightarrow>
          call_setter n en upd obj k (Reactive d val childOb orig cs sh cf) newVal s =
            (Return (), s1)) \<and>
       (\<not> same_value newVal v \<and> has_getter orig \<and> \<not> has_setter orig \<longrightarrow>
          call_setter n en upd obj k (Reactive d val childOb orig cs sh cf) newVal s =
            (Return (), custom_called en cs s1)) \<and>
       (\<not> same_value newVal v \<and> \<not> (has_getter orig \<and> \<not> has_setter orig) \<longrightarrow>
          call_setter n en upd obj k (Reactive d val childOb orig cs sh cf) newVal s =
            (case setter_write n en upd obj k d orig newVal (custom_called en cs s1) of
               (Throw x, s3) \<Rightarrow> (Throw x, s3)
             | (Return u, s3) \<Rightarrow>
                 (case (if sh then (Return None, s3) else observe n en newVal False s3) of
                    (Throw x, s4) \<Rightarrow> (Throw x, s4)
                  | (Return b, s4) \<Rightarrow>
                      (case notify en upd d (upd_prop obj k (in_closure d (set_childOb b)) s4) of
                         (called, r, s5) \<Rightarrow> (r, s5)))))"
      using ro by (simp only: u') simp
  qed
  have p: "plain_original orig \<longrightarrow>
      getter_read n val orig s = (Return (closure_value val orig), s) \<and>
      setter_write n en upd obj k d orig newVal s =
        (Return (), upd_prop obj k (if has_setter orig then in_accessor (\<lambda>x. newVal)
                                    else in_closure d (set_val newVal)) s)"
    using getter_read_plain setter_write_plain by blast
  have e: "getOwnPropertyDescriptor obj k s = Some (Reactive d val childOb orig cs sh cf) \<longrightarrow>
            (\<not> has_setter orig \<longrightarrow>
               getOwnPropertyDescriptor obj k
                 (upd_prop obj k (in_closure d (set_val newVal)) (custom_called en cs s)) =
               Some (Reactive d newVal childOb orig cs sh cf)) \<and>
            (\<forall>g slot c. orig = Some (Accessor g True slot c) \<longrightarrow>
               getOwnPropertyDescriptor obj k
                 (upd_prop obj k (in_accessor (\<lambda>x. newVal)) (custom_called en cs s)) =
               Some (Reactive d val childOb (Some (Accessor g True newVal c)) cs sh cf))"
  proof (intro impI conjI allI)
    assume "getOwnPropertyDescriptor obj k s = Some (Reactive d val childOb orig cs sh cf)"
    then show "getOwnPropertyDescriptor obj k
                 (upd_prop obj k (in_closure d (set_val newVal)) (custom_called en cs s)) =
               Some (Reactive d newVal childOb orig cs sh cf)"
      by (rule store_in_closure)
  next
    fix g slot c
    assume "getOwnPropertyDescriptor obj k s = Some (Reactive d val childOb orig cs sh cf)"
      and "orig = Some (Accessor g True slot c)"
    then have "getOwnPropertyDescriptor obj k s =
                 Some (Reactive d val childOb (Some (Accessor g True slot c)) cs sh cf)"
      by simp
    then show "getOwnPropertyDescriptor obj k
                 (upd_prop obj k (in_accessor (\<lambda>x. newVal)) (custom_called en cs s)) =
               Some (Reactive d val childOb (Some (Accessor g True newVal c)) cs sh cf)"
      by (rule store_in_accessor)
  qed
  from t r p e show ?thesis by (intro conjI)
qed

theorem reactiveSetter_cases_witness:
  "getter_read 1 NaN None observed_object = (Return NaN, observed_object) \<and>
   same_value NaN NaN \<and>
   call_setter 1 development_sync no_update 0 (Name ''a'')
     (Reactive 1 NaN None None False False True) NaN observed_object = (Return (), observed_object) \<and>
   getter_read 1 Undefined (Some (Reactive 5 (Number 1) None None False False True)) watching =
     (Return (Number 1), depend 5 watching) \<and>
   same_value (Number 1) (Number 1) \<and>
   call_setter 1 development_sync no_update 0 (Name ''a'')
     (Reactive 1 Undefined None (Some (Reactive 5 (Number 1) None None False False True)) False False True)
     (Number 1) watching = (Return (), depend 5 watching) \<and>
   reads_only watching (depend 5 watching) \<and> subs (depend 5 watching) 5 = [1] \<and>
   plain_original None \<and>
   getter_read 1 (Number 1) None observed_object = (Return (Number 1), observed_object) \<and>
   \<not> same_value (Number 2) (Number 1) \<and>
   getOwnPropertyDescriptor 0 (Name ''a'') observed_object =
     Some (Reactive 1 (Number 1) None None False False True) \<and>
   getOwnPropertyDescriptor 0 (Name ''a'')
     (upd_prop 0 (Name ''a'') (in_closure 1 (set_val (Number 2)))
        (custom_called development_sync False observed_object)) =
     Some (Reactive 1 (Number 2) None None False False True) \<and>
   notified (snd (call_setter 1 development_sync no_update 0 (Name ''a'')
     (Reactive 1 (Number 1) None None False False True) (Number 2) observed_object)) = [1]"
proof -
  have g1: "getter_read 1 NaN None observed_object = (Return NaN, observed_object)"
    by (simp add: getter_read_def)
  have n: "same_value NaN NaN" by (simp add: same_value_def strict_eq_def)
  have g2: "getter_read 1 Undefined (Some (Reactive 5 (Number 1) None None False False True)) watching =
     (Return (Number 1), depend 5 watching)"
    by (rule watching_read)
  have m: "same_value (Number 1) (Number 1)" by (simp add: same_value_def strict_eq_def)
  have p: "plain_original None" by (simp add: plain_original_def)
  have g3: "getter_read 1 (Number 1) None observed_object = (Return (Number 1), observed_object)"
    by (simp add: getter_read_def)
  have d: "\<not> same_value (Number 2) (Number 1)" by (simp add: same_value_def strict_eq_def)
  have h: "\<not> has_setter None" by simp
  have w: "notified (snd (call_setter 1 development_sync no_update 0 (Name ''a'')
     (Reactive 1 (Number 1) None None False False True) (Number 2) observed_object)) = [1]"
    by (simp only: write_observed snd_conv) simp
  note a = reactiveSetter_cases[where n = 1 and val = NaN and orig = None
      and s = observed_object and newVal = NaN and en = development_sync and upd = no_update
      and obj = 0 and k = "Name ''a''" and d = 1 and childOb = None and cs = False and sh = False
      and cf = True]
  note b = reactiveSetter_cases[where n = 1 and val = Undefined
      and orig = "Some (Reactive 5 (Number 1) None None False False True)"
      and s = watching and newVal = "Number 1" and en = development_sync and upd = no_update
      and obj = 0 and k = "Name ''a''" and d = 1 and childOb = None and cs = False and sh = False
      and cf = True]
  note c = reactiveSetter_cases[where n = 1 and val = "Number 1" and orig = None
      and s = observed_object and newVal = "Number 2" and en = development_sync and upd = no_update
      and obj = 0 and k = "Name ''a''" and d = 1 and childOb = None and cs = False and sh = False
      and cf = True]
  have a1: "call_setter 1 development_sync no_update 0 (Name ''a'')
     (Reactive 1 NaN None None False False True) NaN observed_object = (Return (), observed_object)"
    using a g1 n by blast
  have b1: "call_setter 1 development_sync no_update 0 (Name ''a'')
     (Reactive 1 Undefined None (Some (Reactive 5 (Number 1) None None False False True)) False False True)
     (Number 1) watching = (Return (), depend 5 watching) \<and>
     reads_only watching (depend 5 watching)"
    using b g2 m by blast
  have c1: "getOwnPropertyDescriptor 0 (Name ''a'')
     (upd_prop 0 (Name ''a'') (in_closure 1 (set_val (Number 2)))
        (custom_called development_sync False observed_object)) =
     Some (Reactive 1 (Number 2) None None False False True)"
    using c observed_object_facts(4) h by blast
  show ?thesis
    using g1 n a1 g2 m b1 watching_subs p g3 d observed_object_facts(4) c1 w
    by (intro conjI) blast+
qed

text \<open>
  C2 as stated fails: \<open>a\<close> of \<open>getter_only\<close> was defined over a getter without a
  setter and reads as 1; writing 2 to it is not a write of the same value, yet
  nothing is stored and no \<open>notify()\<close> is entered.
\<close>

theorem write_not_stored_counterexample:
  "\<not> same_value (Number 2) (Number 1) \<and>
   fst (read 1 0 (Name ''a'') getter_only) = Return (Number 1) \<and>
   assign 1 production_async no_update 0 (Name ''a'') (Number 2) getter_only =
     (Return (), getter_only) \<and>
   notified getter_only = []"
proof -
  have d: "\<not> same_value (Number 2) (Number 1)" by (simp add: same_value_def strict_eq_def)
  have r: "fst (read 1 0 (Name ''a'') getter_only) = Return (Number 1)"
    by (simp add: read_def getter_only_facts)
  show ?thesis using d r write_getter_only getter_only_facts(2) by (intro conjI)
qed




end
